theory Spec2Isabelle
  imports Main "HOL-Library.Word" "HOL-Library.AList"
begin

unbundle bit_operations_syntax

section \<open>Common.h: constants and size classes\<close>

text \<open>
  \<^verbatim>\<open>size_t\<close> and pointers are 64-bit machine words (the allocator targets 64-bit
  platforms: a free block stores one pointer in its first 8 bytes). Arithmetic on them wraps
  around; \<^verbatim>\<open>nullptr\<close> is the word 0.
\<close>

type_synonym size_t = "64 word"
type_synonym ptr = "64 word"

abbreviation nullptr :: ptr where
  "nullptr \<equiv> 0"

definition ALIGNMENT :: size_t where
  "ALIGNMENT = 8"

definition MAX_BYTES :: size_t where
  "MAX_BYTES = 256 * 1024"

definition FREE_LIST_SIZE :: size_t where
  "FREE_LIST_SIZE = MAX_BYTES div ALIGNMENT"

text \<open>\<^verbatim>\<open>SizeClass::roundUp\<close>: \<^verbatim>\<open>(bytes + ALIGNMENT - 1) & ~(ALIGNMENT - 1)\<close>.\<close>

definition roundUp :: "size_t \<Rightarrow> size_t" where
  "roundUp bytes = (bytes + ALIGNMENT - 1) AND NOT (ALIGNMENT - 1)"

text \<open>\<^verbatim>\<open>SizeClass::getIndex\<close>: the argument is first raised to at least \<^verbatim>\<open>ALIGNMENT\<close>.\<close>

definition getIndex :: "size_t \<Rightarrow> size_t" where
  "getIndex bytes0 =
     (let bytes = max bytes0 ALIGNMENT
      in (bytes + ALIGNMENT - 1) div ALIGNMENT - 1)"

text \<open>
  The block size of a class index, as \<^verbatim>\<open>CentralCache::fetchRange\<close> computes it:
  \<^verbatim>\<open>size_t size = (index + 1) * ALIGNMENT\<close>.
\<close>

definition classSize :: "size_t \<Rightarrow> size_t" where
  "classSize index = (index + 1) * ALIGNMENT"

section \<open>Memory\<close>

text \<open>
  The allocator reads and writes memory only through the first pointer-sized word of a block
  (\<^verbatim>\<open>*reinterpret_cast<void**>(p)\<close>). Memory is therefore modelled at that granularity:
  \<open>m p\<close> is the pointer stored in the 8 bytes at address \<open>p\<close>. Block addresses are
  8-byte aligned (span bases are page aligned and class sizes are multiples of 8), so two
  such words are either the same or disjoint.
\<close>

type_synonym memory = "ptr \<Rightarrow> ptr"

text \<open>
  An intrusive free list: \<open>blockList m p bs\<close> holds when following the first words from \<open>p\<close>
  visits exactly the blocks \<open>bs\<close>, in this order, and then reaches \<^verbatim>\<open>nullptr\<close>.
\<close>

fun blockList :: "memory \<Rightarrow> ptr \<Rightarrow> ptr list \<Rightarrow> bool" where
  "blockList m p [] = (p = nullptr)"
| "blockList m p (b # bs) = (p = b \<and> b \<noteq> nullptr \<and> blockList m (m b) bs)"

text \<open>The addresses of blocks number \<open>i\<close>, ..., \<open>n - 1\<close> of a span carved at \<open>start\<close>.\<close>

definition blocksFrom :: "ptr \<Rightarrow> size_t \<Rightarrow> nat \<Rightarrow> nat \<Rightarrow> ptr list" where
  "blocksFrom start bsize i n = map (\<lambda>j. start + of_nat j * bsize) [i..<n]"

section \<open>PageCache\<close>

definition PAGE_SIZE :: size_t where
  "PAGE_SIZE = 4096"

text \<open>
  \<^verbatim>\<open>Span\<close> objects live on the C++ heap and are shared between the free lists and the
  registry, so they are kept in an explicit store: a \<^verbatim>\<open>Span*\<close> is \<open>None\<close> (null) or
  \<open>Some r\<close> with \<open>r\<close> the object's identity.
\<close>

type_synonym sref = nat

record Span =
  pageAddr :: ptr
  numPages :: size_t
  "next" :: "sref option"

text \<open>
  \<^verbatim>\<open>freeSpans_\<close> is a \<^verbatim>\<open>std::map<size_t, Span*>\<close>, kept as an association list with
  distinct keys because \<^verbatim>\<open>lower_bound\<close> needs its keys; a key may be present with a null
  head. \<^verbatim>\<open>spanMap_\<close> is a \<^verbatim>\<open>std::map<void*, Span*>\<close>. \<open>spans\<close> is the store of live
  \<^verbatim>\<open>Span\<close> objects and \<open>fresh\<close> the identity that the next \<^verbatim>\<open>new Span\<close> returns.
  Isabelle names cannot end in an underscore, so the members are written without it.
  The mutex is taken on entry of both operations and released on every return; it has no
  effect on a sequential run and is not part of the state.
\<close>

record PageCache =
  spans :: "sref \<rightharpoonup> Span"
  fresh :: sref
  freeSpans :: "(size_t \<times> sref option) list"
  spanMap :: "ptr \<rightharpoonup> sref"

definition PageCache_init :: PageCache where
  "PageCache_init = \<lparr>spans = Map.empty, fresh = 0, freeSpans = [], spanMap = Map.empty\<rparr>"

text \<open>Undefined behaviour of the C++ program is a value of the model.\<close>

datatype fault = NullPointer | DanglingPointer

text \<open>\<^verbatim>\<open>std::map::lower_bound\<close>: the entry with the least key that is not less than \<open>n\<close>.\<close>

fun lower_bound :: "(size_t \<times> 'v) list \<Rightarrow> size_t \<Rightarrow> (size_t \<times> 'v) option" where
  "lower_bound [] n = None"
| "lower_bound ((k, v) # kvs) n =
     (case lower_bound kvs n of
        None \<Rightarrow> if n \<le> k then Some (k, v) else None
      | Some (k', v') \<Rightarrow> if n \<le> k \<and> k \<le> k' then Some (k, v) else Some (k', v'))"

text \<open>
  \<^verbatim>\<open>freeSpans_[k]\<close>: \<^verbatim>\<open>operator[]\<close> inserts a null head when the key is absent
  (\<open>touch\<close>) and yields the head (\<open>bucket\<close>).
\<close>

definition touch :: "(size_t \<times> sref option) list \<Rightarrow> size_t \<Rightarrow> (size_t \<times> sref option) list" where
  "touch fs k = (case map_of fs k of None \<Rightarrow> AList.update k None fs | Some h \<Rightarrow> fs)"

definition bucket :: "(size_t \<times> sref option) list \<Rightarrow> size_t \<Rightarrow> sref option" where
  "bucket fs k = (case map_of fs k of None \<Rightarrow> None | Some h \<Rightarrow> h)"

text \<open>
  A list of free spans: \<open>spanList st h rs\<close> holds when following \<^verbatim>\<open>next\<close> from the head
  \<open>h\<close> visits exactly the live spans \<open>rs\<close> and then reaches null.
\<close>

fun spanList :: "(sref \<rightharpoonup> Span) \<Rightarrow> sref option \<Rightarrow> sref list \<Rightarrow> bool" where
  "spanList st h [] = (h = None)"
| "spanList st h (r # rs) =
     (h = Some r \<and> (case st r of None \<Rightarrow> False | Some sp \<Rightarrow> spanList st (next sp) rs))"

text \<open>
  \<^verbatim>\<open>PageCache::systemAlloc\<close>. The answer of \<^verbatim>\<open>mmap\<close> is an input of the model: \<open>None\<close>
  for \<^verbatim>\<open>MAP_FAILED\<close>, \<open>Some p\<close> for a mapping at \<open>p\<close>, which \<^verbatim>\<open>memset\<close> then clears.
\<close>

definition systemAlloc :: "memory \<Rightarrow> ptr option \<Rightarrow> size_t \<Rightarrow> ptr \<times> memory" where
  "systemAlloc m os n =
     (let bytes = n * PAGE_SIZE
      in case os of
           None \<Rightarrow> (nullptr, m)
         | Some p \<Rightarrow> (p, \<lambda>a. if a - p < bytes then 0 else m a))"

text \<open>
  \<^verbatim>\<open>PageCache::allocateSpan\<close>. Dereferencing a null or deleted \<^verbatim>\<open>Span*\<close> is a fault.
  The result is the returned address with the new state of the cache and of memory.
\<close>

definition allocateSpan ::
    "PageCache \<Rightarrow> memory \<Rightarrow> ptr option \<Rightarrow> size_t \<Rightarrow> fault + ptr \<times> PageCache \<times> memory" where
  "allocateSpan pc m os n =
     (case lower_bound (freeSpans pc) n of
        Some (k, head) \<Rightarrow>
          (case head of
             None \<Rightarrow> Inl NullPointer
           | Some sp \<Rightarrow>
               (case spans pc sp of
                  None \<Rightarrow> Inl DanglingPointer
                | Some span \<Rightarrow>
                    let fs1 = (case next span of
                                 Some nx \<Rightarrow> AList.update k (Some nx) (freeSpans pc)
                               | None \<Rightarrow> AList.delete k (freeSpans pc));
                        pc1 = pc\<lparr>freeSpans := fs1\<rparr>;
                        pc2 = (if n < numPages span then
                                 let newSpan = fresh pc1;
                                     rest = numPages span - n;
                                     new = \<lparr>pageAddr = pageAddr span + n * PAGE_SIZE,
                                            numPages = rest,
                                            next = bucket fs1 rest\<rparr>
                                 in pc1\<lparr>spans := (spans pc1)(newSpan \<mapsto> new,
                                                       sp \<mapsto> span\<lparr>numPages := n\<rparr>),
                                        fresh := Suc newSpan,
                                        freeSpans := AList.update rest (Some newSpan) fs1\<rparr>
                               else pc1)
                    in Inr (pageAddr span,
                            pc2\<lparr>spanMap := (spanMap pc2)(pageAddr span \<mapsto> sp)\<rparr>,
                            m)))
      | None \<Rightarrow>
          (case systemAlloc m os n of
             (mem, m') \<Rightarrow>
               if mem = nullptr then Inr (nullptr, pc, m')
               else Inr (mem,
                         pc\<lparr>spans := (spans pc)(fresh pc \<mapsto>
                                        \<lparr>pageAddr = mem, numPages = n, next = None\<rparr>),
                            fresh := Suc (fresh pc),
                            spanMap := (spanMap pc)(mem \<mapsto> fresh pc)\<rparr>,
                         m')))"

text \<open>
  The search of \<^verbatim>\<open>deallocateSpan\<close> for \<^verbatim>\<open>nextSpan\<close> behind the head of its bucket:
  \<^verbatim>\<open>while (prev->next) { if (prev->next == nextSpan) { ...; break; } prev = prev->next; }\<close>.
  On a cyclic list that does not hold \<^verbatim>\<open>nextSpan\<close> the loop does not end: the value is
  \<open>None\<close> then. Otherwise it is the updated store and the flag \<^verbatim>\<open>found\<close>.
\<close>

partial_function (option) unlinkWalk ::
    "(sref \<rightharpoonup> Span) \<Rightarrow> sref \<Rightarrow> sref \<Rightarrow> (fault + (sref \<rightharpoonup> Span) \<times> bool) option" where
  "unlinkWalk st prev nextSpan =
     (case st prev of
        None \<Rightarrow> Some (Inl DanglingPointer)
      | Some p \<Rightarrow>
          (case next p of
             None \<Rightarrow> Some (Inr (st, False))
           | Some q \<Rightarrow>
               if q = nextSpan then
                 (case st nextSpan of
                    None \<Rightarrow> Some (Inl DanglingPointer)
                  | Some ns \<Rightarrow> Some (Inr (st(prev \<mapsto> p\<lparr>next := next ns\<rparr>), True)))
               else unlinkWalk st q nextSpan))"

text \<open>
  The body of \<^verbatim>\<open>if (nextIt != spanMap_.end())\<close> in \<^verbatim>\<open>deallocateSpan\<close>: look for
  \<^verbatim>\<open>nextSpan\<close> in the bucket of its page count, unlink it when found, and then merge it
  into \<^verbatim>\<open>span\<close>.
\<close>

definition mergeNext ::
    "PageCache \<Rightarrow> sref \<Rightarrow> ptr \<Rightarrow> sref \<Rightarrow> (fault + PageCache) option" where
  "mergeNext pc span nextAddr nextSpan =
     (case spans pc nextSpan of
        None \<Rightarrow> Some (Inl DanglingPointer)
      | Some ns \<Rightarrow>
          let fs = touch (freeSpans pc) (numPages ns);
              nextList = bucket fs (numPages ns);
              searched =
                (if nextList = Some nextSpan then
                   Some (Inr (AList.update (numPages ns) (next ns) fs, spans pc, True))
                 else
                   (case nextList of
                      None \<Rightarrow> Some (Inr (fs, spans pc, False))
                    | Some prev \<Rightarrow>
                        (case unlinkWalk (spans pc) prev nextSpan of
                           None \<Rightarrow> None
                         | Some (Inl f) \<Rightarrow> Some (Inl f)
                         | Some (Inr (st, found)) \<Rightarrow> Some (Inr (fs, st, found)))))
          in case searched of
               None \<Rightarrow> None
             | Some (Inl f) \<Rightarrow> Some (Inl f)
             | Some (Inr (fs1, st1, found)) \<Rightarrow>
                 if found then
                   (case st1 span of
                      None \<Rightarrow> Some (Inl DanglingPointer)
                    | Some s \<Rightarrow>
                        (case st1 nextSpan of
                           None \<Rightarrow> Some (Inl DanglingPointer)
                         | Some ns1 \<Rightarrow>
                             Some (Inr (pc\<lparr>spans :=
                                             (st1(span \<mapsto> s\<lparr>numPages := numPages s + numPages ns1\<rparr>))
                                               (nextSpan := None),
                                           freeSpans := fs1,
                                           spanMap := (spanMap pc)(nextAddr := None)\<rparr>))))
                 else Some (Inr (pc\<lparr>spans := st1, freeSpans := fs1\<rparr>)))"

text \<open>
  The end of \<^verbatim>\<open>deallocateSpan\<close>:
  \<^verbatim>\<open>auto& list = freeSpans_[span->numPages]; span->next = list; list = span;\<close>.
\<close>

definition linkFree :: "PageCache \<Rightarrow> sref \<Rightarrow> fault + PageCache" where
  "linkFree pc span =
     (case spans pc span of
        None \<Rightarrow> Inl DanglingPointer
      | Some s \<Rightarrow>
          Inr (pc\<lparr>spans := (spans pc)(span \<mapsto> s\<lparr>next := bucket (freeSpans pc) (numPages s)\<rparr>),
                  freeSpans := AList.update (numPages s) (Some span) (freeSpans pc)\<rparr>))"

text \<open>\<^verbatim>\<open>PageCache::deallocateSpan\<close>; \<open>None\<close> when the search does not return.\<close>

definition deallocateSpan :: "PageCache \<Rightarrow> ptr \<Rightarrow> size_t \<Rightarrow> (fault + PageCache) option" where
  "deallocateSpan pc p n =
     (case spanMap pc p of
        None \<Rightarrow> Some (Inr pc)
      | Some span \<Rightarrow>
          let nextAddr = p + n * PAGE_SIZE;
              merged = (case spanMap pc nextAddr of
                          None \<Rightarrow> Some (Inr pc)
                        | Some nextSpan \<Rightarrow> mergeNext pc span nextAddr nextSpan)
          in case merged of
               None \<Rightarrow> None
             | Some (Inl f) \<Rightarrow> Some (Inl f)
             | Some (Inr pc1) \<Rightarrow> Some (linkFree pc1 span))"

text \<open>
  A run of the Page Layer: a sequence of calls, each \<^verbatim>\<open>allocateSpan\<close> with the answer
  \<^verbatim>\<open>mmap\<close> gives if it is asked.
\<close>

datatype pageCall = AllocateSpan size_t "ptr option" | DeallocateSpan ptr size_t

fun runPage :: "PageCache \<times> memory \<Rightarrow> pageCall list \<Rightarrow> (fault + PageCache \<times> memory) option" where
  "runPage s [] = Some (Inr s)"
| "runPage (pc, m) (AllocateSpan n os # cs) =
     (case allocateSpan pc m os n of
        Inl f \<Rightarrow> Some (Inl f)
      | Inr (p, pc', m') \<Rightarrow> runPage (pc', m') cs)"
| "runPage (pc, m) (DeallocateSpan p n # cs) =
     (case deallocateSpan pc p n of
        None \<Rightarrow> None
      | Some (Inl f) \<Rightarrow> Some (Inl f)
      | Some (Inr pc') \<Rightarrow> runPage (pc', m) cs)"

section \<open>CentralCache\<close>

definition SPAN_PAGES :: size_t where
  "SPAN_PAGES = 8"

text \<open>
  The two arrays of \<^verbatim>\<open>CentralCache\<close>, indexed by class; the guards of the operations keep
  every index below \<^verbatim>\<open>FREE_LIST_SIZE\<close>. A lock is \<open>True\<close> while it is held.
\<close>

record CentralCache =
  centralFreeList :: "size_t \<Rightarrow> ptr"
  locks :: "size_t \<Rightarrow> bool"

text \<open>The state that the Central Layer works on: memory and the two singletons.\<close>

record Process =
  memory :: memory
  pageCache :: PageCache
  centralCache :: CentralCache

text \<open>
  \<^verbatim>\<open>while (locks_[index].test_and_set(...)) std::this_thread::yield();\<close>.
  \<^verbatim>\<open>test_and_set\<close> sets the flag and returns its old value. In a sequential run nobody
  clears a flag that is held, so the loop does not end then: the value is \<open>None\<close>.
\<close>

partial_function (option) spinLock :: "(size_t \<Rightarrow> bool) \<Rightarrow> size_t \<Rightarrow> (size_t \<Rightarrow> bool) option" where
  "spinLock flags index =
     (if flags index then spinLock (flags(index := True)) index
      else Some (flags(index := True)))"

text \<open>\<^verbatim>\<open>CentralCache::fetchFromPageCache\<close>.\<close>

definition fetchFromPageCache ::
    "PageCache \<Rightarrow> memory \<Rightarrow> ptr option \<Rightarrow> size_t \<Rightarrow> fault + ptr \<times> PageCache \<times> memory" where
  "fetchFromPageCache pc m os bsize =
     (let n = (bsize + PAGE_SIZE - 1) div PAGE_SIZE
      in if bsize \<le> SPAN_PAGES * PAGE_SIZE then allocateSpan pc m os SPAN_PAGES
         else allocateSpan pc m os n)"

text \<open>The page count that \<^verbatim>\<open>fetchFromPageCache\<close> asks the Page Layer for.\<close>

definition spanPagesFor :: "size_t \<Rightarrow> size_t" where
  "spanPagesFor bsize =
     (if bsize \<le> SPAN_PAGES * PAGE_SIZE then SPAN_PAGES
      else (bsize + PAGE_SIZE - 1) div PAGE_SIZE)"

text \<open>
  The two linking loops of \<^verbatim>\<open>fetchRange\<close>:
  \<^verbatim>\<open>for (size_t i = i0; i < n; ++i) *(void**)(start + (i - 1) * size) = start + i * size;\<close>
\<close>

function linkBlocks :: "ptr \<Rightarrow> size_t \<Rightarrow> size_t \<Rightarrow> size_t \<Rightarrow> memory \<Rightarrow> memory" where
  "linkBlocks start bsize i n m =
     (if i < n
      then linkBlocks start bsize (i + 1) n (m(start + (i - 1) * bsize := start + i * bsize))
      else m)"
  by pat_completeness auto
termination
proof (relation "measure (\<lambda>(start, bsize, i, n, m). unat n - unat i)")
  show "wf (measure (\<lambda>(start, bsize, i, n, m). unat n - unat i))"
    by simp
next
  fix start bsize i n :: "64 word" and m :: memory
  assume "i < n"
  then show "((start, bsize, i + 1, n, m(start + (i - 1) * bsize := start + i * bsize)),
              (start, bsize, i, n, m)) \<in> measure (\<lambda>(start, bsize, i, n, m). unat n - unat i)"
    by simp unat_arith
qed

text \<open>
  The carving of a fresh span in \<^verbatim>\<open>fetchRange\<close>: the first \<^verbatim>\<open>allocBlocks\<close> blocks are
  linked and the list is closed with null, but only \<^verbatim>\<open>if (allocBlocks > 1)\<close>; then the
  remaining blocks are linked and closed, \<^verbatim>\<open>if (totalBlocks > allocBlocks)\<close>.
\<close>

definition carve :: "ptr \<Rightarrow> size_t \<Rightarrow> size_t \<Rightarrow> size_t \<Rightarrow> memory \<Rightarrow> memory" where
  "carve start bsize allocBlocks totalBlocks m =
     (let m1 = (if 1 < allocBlocks
                then (linkBlocks start bsize 1 allocBlocks m)
                       (start + (allocBlocks - 1) * bsize := nullptr)
                else m)
      in if allocBlocks < totalBlocks
         then (linkBlocks start bsize (allocBlocks + 1) totalBlocks m1)
                (start + (totalBlocks - 1) * bsize := nullptr)
         else m1)"

text \<open>
  The walk of \<^verbatim>\<open>fetchRange\<close> over a non-empty central list:
  \<^verbatim>\<open>while (current && count < batchNum) { prev = current; current = *current; count++; }\<close>;
  the value is the final \<^verbatim>\<open>(prev, current)\<close>.
\<close>

function walkList :: "memory \<Rightarrow> ptr \<Rightarrow> ptr \<Rightarrow> size_t \<Rightarrow> size_t \<Rightarrow> ptr \<times> ptr" where
  "walkList m current prev count batchNum =
     (if current \<noteq> nullptr \<and> count < batchNum
      then walkList m (m current) current (count + 1) batchNum
      else (prev, current))"
  by pat_completeness auto
termination
proof (relation "measure (\<lambda>(m, current, prev, count, batchNum). unat batchNum - unat count)")
  show "wf (measure (\<lambda>(m, current, prev, count, batchNum). unat batchNum - unat count))"
    by simp
next
  fix m :: memory and current prev count batchNum :: "64 word"
  assume "current \<noteq> nullptr \<and> count < batchNum"
  then show "((m, m current, current, count + 1, batchNum), (m, current, prev, count, batchNum))
             \<in> measure (\<lambda>(m, current, prev, count, batchNum). unat batchNum - unat count)"
    by simp unat_arith
qed

text \<open>
  \<^verbatim>\<open>CentralCache::fetchRange\<close>. The value is \<open>None\<close> when the call does not return,
  a fault when the Page Layer runs into one, and otherwise the returned pointer with the new
  state. Exceptions are not modelled (only \<^verbatim>\<open>new Span\<close> could throw), so the handler of
  the \<^verbatim>\<open>try\<close> block has no counterpart.
\<close>

definition fetchRange ::
    "Process \<Rightarrow> ptr option \<Rightarrow> size_t \<Rightarrow> size_t \<Rightarrow> (fault + ptr \<times> Process) option" where
  "fetchRange s os index batchNum =
     (if FREE_LIST_SIZE \<le> index \<or> batchNum = 0 then Some (Inr (nullptr, s))
      else
        (case spinLock (locks (centralCache s)) index of
           None \<Rightarrow> None
         | Some held \<Rightarrow>
             let heads = centralFreeList (centralCache s);
                 released = held(index := False);
                 result = heads index
             in if result = nullptr then
                  (let bsize = (index + 1) * ALIGNMENT
                   in case fetchFromPageCache (pageCache s) (memory s) os bsize of
                        Inl f \<Rightarrow> Some (Inl f)
                      | Inr (result, pc, m) \<Rightarrow>
                          if result = nullptr then
                            Some (Inr (nullptr,
                              \<lparr>memory = m, pageCache = pc,
                               centralCache = \<lparr>centralFreeList = heads, locks = released\<rparr>\<rparr>))
                          else
                            let start = result;
                                totalBlocks = (SPAN_PAGES * PAGE_SIZE) div bsize;
                                allocBlocks = min batchNum totalBlocks;
                                m2 = carve start bsize allocBlocks totalBlocks m;
                                heads2 = (if allocBlocks < totalBlocks
                                          then heads(index := start + allocBlocks * bsize)
                                          else heads)
                            in Some (Inr (result,
                                 \<lparr>memory = m2, pageCache = pc,
                                  centralCache = \<lparr>centralFreeList = heads2, locks = released\<rparr>\<rparr>)))
                else
                  (case walkList (memory s) result nullptr 0 batchNum of
                     (prev, current) \<Rightarrow>
                       let m1 = (if prev \<noteq> nullptr then (memory s)(prev := nullptr) else memory s)
                       in Some (Inr (result,
                            \<lparr>memory = m1, pageCache = pageCache s,
                             centralCache = \<lparr>centralFreeList = heads(index := current),
                                             locks = released\<rparr>\<rparr>)))))"

text \<open>
  The walk of \<^verbatim>\<open>returnRange\<close>:
  \<^verbatim>\<open>while (*(void**)end != nullptr && count < size) { end = *(void**)end; count++; }\<close>.
\<close>

function findEnd :: "memory \<Rightarrow> ptr \<Rightarrow> size_t \<Rightarrow> size_t \<Rightarrow> ptr" where
  "findEnd m tail count bsize =
     (if m tail \<noteq> nullptr \<and> count < bsize then findEnd m (m tail) (count + 1) bsize else tail)"
  by pat_completeness auto
termination
proof (relation "measure (\<lambda>(m, tail, count, bsize). unat bsize - unat count)")
  show "wf (measure (\<lambda>(m, tail, count, bsize). unat bsize - unat count))"
    by simp
next
  fix m :: memory and tail count bsize :: "64 word"
  assume "m tail \<noteq> nullptr \<and> count < bsize"
  then show "((m, m tail, count + 1, bsize), (m, tail, count, bsize))
             \<in> measure (\<lambda>(m, tail, count, bsize). unat bsize - unat count)"
    by simp unat_arith
qed

text \<open>
  \<^verbatim>\<open>CentralCache::returnRange(start, size, index)\<close>; \<open>None\<close> when the call spins for
  ever on a held lock.
\<close>

definition returnRange :: "Process \<Rightarrow> ptr \<Rightarrow> size_t \<Rightarrow> size_t \<Rightarrow> Process option" where
  "returnRange s start bsize index =
     (if start = nullptr \<or> FREE_LIST_SIZE \<le> index then Some s
      else
        (case spinLock (locks (centralCache s)) index of
           None \<Rightarrow> None
         | Some held \<Rightarrow>
             let tail = findEnd (memory s) start 1 bsize;
                 current = centralFreeList (centralCache s) index
             in Some (s\<lparr>memory := (memory s)(tail := current),
                       centralCache :=
                         \<lparr>centralFreeList = (centralFreeList (centralCache s))(index := start),
                          locks = held(index := False)\<rparr>\<rparr>)))"

section \<open>Example states\<close>

text \<open>Concrete inputs on which the theorems below are evaluated.\<close>

definition zeroMemory :: memory where
  "zeroMemory = (\<lambda>_. nullptr)"

text \<open>The memory in which the blocks \<open>bs\<close> form one null-terminated list.\<close>

definition chained :: "ptr list \<Rightarrow> memory" where
  "chained bs = fold (\<lambda>(b, c) m. m(b := c)) (zip bs (tl bs @ [nullptr])) zeroMemory"

definition emptyProcess :: Process where
  "emptyProcess =
     \<lparr>memory = zeroMemory, pageCache = PageCache_init,
      centralCache = \<lparr>centralFreeList = (\<lambda>_. nullptr), locks = (\<lambda>_. False)\<rparr>\<rparr>"

text \<open>Nine free 8-byte blocks, as a thread cache drains them to class 0.\<close>

definition nineBlocks :: "ptr list" where
  "nineBlocks = [0x1000, 0x1008, 0x1010, 0x1018, 0x1020, 0x1028, 0x1030, 0x1038, 0x1040]"

definition drainState :: Process where
  "drainState = emptyProcess\<lparr>memory := chained nineBlocks\<rparr>"

text \<open>A span of 16 pages is mapped at \<open>0x10000\<close> and released again.\<close>

definition splitRun :: "pageCall list" where
  "splitRun = [AllocateSpan 16 (Some 0x10000), DeallocateSpan 0x10000 16]"

definition freedState :: PageCache where
  "freedState =
     \<lparr>spans = [0 \<mapsto> \<lparr>pageAddr = 0x10000, numPages = 16, next = None\<rparr>],
      fresh = 1, freeSpans = [(16, Some 0)], spanMap = [0x10000 \<mapsto> 0]\<rparr>"


text \<open>
  Three spans are mapped: 8 pages at \<open>0x10000\<close>, 4 pages right behind them at \<open>0x18000\<close>,
  and 4 pages at \<open>0x40000\<close>. The two small ones are released, so that the span at
  \<open>0x18000\<close> is the second element of the free list of bucket 4.
\<close>

definition coalesceRun :: "pageCall list" where
  "coalesceRun =
     [AllocateSpan 8 (Some 0x10000), AllocateSpan 4 (Some 0x18000), AllocateSpan 4 (Some 0x40000),
      DeallocateSpan 0x18000 4, DeallocateSpan 0x40000 4]"

definition coalesceState :: PageCache where
  "coalesceState =
     \<lparr>spans = [0 \<mapsto> \<lparr>pageAddr = 0x10000, numPages = 8, next = None\<rparr>,
               1 \<mapsto> \<lparr>pageAddr = 0x18000, numPages = 4, next = None\<rparr>,
               2 \<mapsto> \<lparr>pageAddr = 0x40000, numPages = 4, next = Some 1\<rparr>],
      fresh = 3, freeSpans = [(4, Some 2)],
      spanMap = [0x10000 \<mapsto> 0, 0x18000 \<mapsto> 1, 0x40000 \<mapsto> 2]\<rparr>"

text \<open>
  Two adjacent spans of 8 pages are released, the one at the higher address first, so that
  the second release coalesces them; then 8 pages are requested again.
\<close>

definition coalesceThenAllocate :: "pageCall list" where
  "coalesceThenAllocate =
     [AllocateSpan 8 (Some 0x10000), AllocateSpan 8 (Some 0x18000),
      DeallocateSpan 0x18000 8, DeallocateSpan 0x10000 8, AllocateSpan 8 None]"

text \<open>The Page Layer after it mapped a first span of 8 pages at \<open>0x100000\<close>.\<close>

definition refilledPage :: PageCache where
  "refilledPage =
     \<lparr>spans = [0 \<mapsto> \<lparr>pageAddr = 0x100000, numPages = 8, next = None\<rparr>],
      fresh = 1, freeSpans = [], spanMap = [0x100000 \<mapsto> 0]\<rparr>"

text \<open>
  A large allocation of 1 MiB, which bypasses the caches, gets a span of 256 pages at
  \<open>0x10000\<close>; its owner writes to it and releases it. The Page Layer then holds the span as a
  free span, and its first word still holds the owner's data.
\<close>

definition largeRun :: "pageCall list" where
  "largeRun = [AllocateSpan 256 (Some 0x10000), DeallocateSpan 0x10000 256]"

definition releasedLarge :: PageCache where
  "releasedLarge =
     \<lparr>spans = [0 \<mapsto> \<lparr>pageAddr = 0x10000, numPages = 256, next = None\<rparr>],
      fresh = 1, freeSpans = [(256, Some 0)], spanMap = [0x10000 \<mapsto> 0]\<rparr>"

definition dirtyProcess :: Process where
  "dirtyProcess =
     emptyProcess\<lparr>memory := zeroMemory(0x10000 := 0x4141414141414141),
                  pageCache := releasedLarge\<rparr>"

text \<open>The Page Layer after that span was split for a request of 8 pages.\<close>

definition splitPage :: PageCache where
  "splitPage =
     \<lparr>spans = [0 \<mapsto> \<lparr>pageAddr = 0x10000, numPages = 8, next = None\<rparr>,
               1 \<mapsto> \<lparr>pageAddr = 0x18000, numPages = 248, next = None\<rparr>],
      fresh = 2, freeSpans = [(248, Some 1)], spanMap = [0x10000 \<mapsto> 0]\<rparr>"

section \<open>Size classes\<close>

lemma and_minus_8: "(x::size_t) AND - 8 = x div 8 * 8"
proof -
  have "x AND - (2 ^ 3) = push_bit 3 (drop_bit 3 x)"
    unfolding minus_exp_eq_not_mask by (rule bit_eqI) (auto simp add: bit_simps)
  then show ?thesis
    by (simp add: push_bit_eq_mult drop_bit_eq_div)
qed

lemma unat_plus_7:
  assumes "(s::size_t) \<le> 262144"
  shows "unat (s + 7) = unat s + 7"
proof -
  have "unat s \<le> 262144"
    using assms by (simp add: word_le_nat_alt)
  then show ?thesis
    by (simp add: unat_word_ariths)
qed

lemma unat_times_8:
  assumes "unat (w::size_t) \<le> 40000"
  shows "unat (w * 8) = unat w * 8"
  using assms by (simp add: unat_word_ariths)

text \<open>
  C1. For every request \<open>s\<close> with \<open>0 < s \<le> MAX_BYTES\<close>, rounding up gives the class size of
  the class index of \<open>s\<close>, \<open>roundUp s = (getIndex s + 1) * 8\<close>, and the rounded size is at
  least \<open>s\<close>.
\<close>

theorem roundUp_agrees_with_getIndex:
  assumes "0 < s" and "s \<le> MAX_BYTES"
  shows "roundUp s = (getIndex s + 1) * 8 \<and> roundUp s = classSize (getIndex s) \<and> s \<le> roundUp s"
proof -
  have le: "s \<le> 262144"
    using assms(2) by (simp add: MAX_BYTES_def)
  have n: "unat s \<le> 262144" "0 < unat s"
    using le assms(1) by (simp_all add: word_le_nat_alt word_less_nat_alt)
  have ru: "roundUp s = (s + 7) div 8 * 8"
    by (simp add: roundUp_def ALIGNMENT_def and_minus_8 add.commute)
  have d: "unat ((s + 7) div 8) = (unat s + 7) div 8"
    by (simp add: unat_div unat_plus_7[OF le])
  have uru: "unat (roundUp s) = (unat s + 7) div 8 * 8"
    unfolding ru using n by (subst unat_times_8) (simp_all add: d)
  have m: "max s 8 \<le> 262144"
    using le by (simp add: max_def)
  have um: "unat (max s 8) = max (unat s) 8"
    by (simp add: max_def word_le_nat_alt)
  have d2: "unat ((max s 8 + 7) div 8) = (max (unat s) 8 + 7) div 8"
    by (simp add: unat_div unat_plus_7[OF m] um)
  have gi: "classSize (getIndex s) = (max s 8 + 7) div 8 * 8"
    by (simp add: classSize_def getIndex_def ALIGNMENT_def add.commute)
  have ucs: "unat (classSize (getIndex s)) = (max (unat s) 8 + 7) div 8 * 8"
    unfolding gi using n by (subst unat_times_8) (simp_all add: d2)
  have "unat (roundUp s) = unat (classSize (getIndex s))"
    using n unfolding uru ucs by (cases "unat s < 8") (simp_all add: max_def)
  then have eq: "roundUp s = classSize (getIndex s)"
    by (simp add: word_unat_eq_iff)
  moreover have "unat s \<le> unat (roundUp s)"
    unfolding uru by presburger
  ultimately show ?thesis
    by (simp add: word_le_nat_alt classSize_def ALIGNMENT_def)
qed

theorem roundUp_agrees_with_getIndex_witness:
  "(0::size_t) < 13 \<and> (13::size_t) \<le> MAX_BYTES \<and> getIndex 13 = 1 \<and> roundUp 13 = 16
   \<and> roundUp 13 = (getIndex 13 + 1) * 8 \<and> roundUp 13 = classSize (getIndex 13)
   \<and> (13::size_t) \<le> roundUp 13"
proof -
  have h1: "(0::size_t) < 13"
    by simp
  have h2: "(13::size_t) \<le> MAX_BYTES"
    by (simp add: MAX_BYTES_def)
  have g: "getIndex 13 = 1"
    by (simp add: getIndex_def ALIGNMENT_def)
  show ?thesis
    using roundUp_agrees_with_getIndex[OF h1 h2] h1 h2 g
    by (simp add: classSize_def ALIGNMENT_def)
qed

section \<open>Evaluation rules\<close>

lemma spinLock_free: "\<not> flags index \<Longrightarrow> spinLock flags index = Some (flags(index := True))"
  by (subst spinLock.simps) simp

lemma spinLock_returns:
  assumes "spinLock flags index = Some r"
  shows "\<not> flags index"
proof (rule spinLock.raw_induct[where P = "\<lambda>flags index r. \<not> flags index", OF _ assms])
  fix f and fl :: "size_t \<Rightarrow> bool" and i r'
  assume ih: "\<And>fl i r'. f fl i = Some r' \<Longrightarrow> \<not> fl i"
    and body: "(if fl i then f (fl(i := True)) i else Some (fl(i := True))) = Some r'"
  show "\<not> fl i"
  proof
    assume "fl i"
    with body have "f (fl(i := True)) i = Some r'"
      by simp
    from ih[OF this] show False
      by simp
  qed
qed

text \<open>A call that finds the lock held never returns.\<close>

lemma spinLock_held: "flags index \<Longrightarrow> spinLock flags index = None"
  using spinLock_returns by (cases "spinLock flags index") auto

lemma unlinkWalk_dangling:
  "st prev = None \<Longrightarrow> unlinkWalk st prev t = Some (Inl DanglingPointer)"
  by (subst unlinkWalk.simps) simp

lemma unlinkWalk_end:
  "st prev = Some p \<Longrightarrow> next p = None \<Longrightarrow> unlinkWalk st prev t = Some (Inr (st, False))"
  by (subst unlinkWalk.simps) simp

lemma unlinkWalk_hit:
  "st prev = Some p \<Longrightarrow> next p = Some t \<Longrightarrow> st t = Some ns \<Longrightarrow>
   unlinkWalk st prev t = Some (Inr (st(prev \<mapsto> p\<lparr>next := next ns\<rparr>), True))"
  by (subst unlinkWalk.simps) simp

lemma unlinkWalk_step:
  "st prev = Some p \<Longrightarrow> next p = Some q \<Longrightarrow> q \<noteq> t \<Longrightarrow>
   unlinkWalk st prev t = unlinkWalk st q t"
  by (subst unlinkWalk.simps) simp

lemmas page_eval =
  allocateSpan_def deallocateSpan_def mergeNext_def linkFree_def systemAlloc_def
  PageCache_init_def PAGE_SIZE_def bucket_def touch_def

lemmas central_eval =
  fetchRange_def fetchFromPageCache_def carve_def FREE_LIST_SIZE_def MAX_BYTES_def ALIGNMENT_def
  SPAN_PAGES_def spinLock_free emptyProcess_def Let_def

lemma splitRun_reaches_freedState:
  "runPage (PageCache_init, zeroMemory) splitRun = Some (Inr (freedState, zeroMemory))"
  by (simp add: splitRun_def freedState_def page_eval zeroMemory_def fun_eq_iff)

lemma largeRun_reaches_releasedLarge:
  "runPage (PageCache_init, zeroMemory) largeRun = Some (Inr (releasedLarge, zeroMemory))"
  by (simp add: largeRun_def releasedLarge_def page_eval zeroMemory_def fun_eq_iff)

lemma coalesceRun_reaches_coalesceState:
  "runPage (PageCache_init, zeroMemory) coalesceRun = Some (Inr (coalesceState, zeroMemory))"
  by (simp add: coalesceRun_def coalesceState_def page_eval zeroMemory_def fun_eq_iff)

section \<open>The free-span index\<close>

text \<open>\<open>lower_bound\<close> finds an entry with the least key that is at least \<open>n\<close>, if there is one.\<close>

lemma lower_bound_None: "lower_bound kvs n = None \<longleftrightarrow> (\<forall>k \<in> fst ` set kvs. \<not> n \<le> k)"
  by (induction kvs) (auto split: option.splits if_splits)

lemma lower_bound_Some:
  "lower_bound kvs n = Some (k, v) \<Longrightarrow>
   map_of kvs k = Some v \<and> n \<le> k \<and> (\<forall>k' \<in> fst ` set kvs. n \<le> k' \<longrightarrow> k \<le> k')"
proof (induction kvs arbitrary: k v)
  case Nil
  then show ?case by simp
next
  case (Cons kv kvs)
  obtain k0 v0 where kv: "kv = (k0, v0)"
    by (cases kv)
  show ?case
  proof (cases "lower_bound kvs n")
    case None
    with Cons.prems kv have "n \<le> k0" "k = k0" "v = v0"
      by (auto split: if_splits)
    moreover from None have "\<forall>k' \<in> fst ` set kvs. \<not> n \<le> k'"
      by (simp add: lower_bound_None)
    ultimately show ?thesis
      using kv by auto
  next
    case (Some r)
    obtain k1 v1 where r: "r = (k1, v1)"
      by (cases r)
    from Cons.IH[OF Some[unfolded r]]
    have ih: "map_of kvs k1 = Some v1" "n \<le> k1" "\<forall>k' \<in> fst ` set kvs. n \<le> k' \<longrightarrow> k1 \<le> k'"
      by simp_all
    show ?thesis
    proof (cases "n \<le> k0 \<and> k0 \<le> k1")
      case True
      with Cons.prems kv Some r have "k = k0" "v = v0"
        by simp_all
      with True ih(3) kv show ?thesis
        by auto
    next
      case False
      with Cons.prems kv Some r have e: "k = k1" "v = v1"
        by auto
      from False ih(2) have "k0 \<noteq> k1"
        by auto
      with e ih kv False show ?thesis
        by auto
    qed
  qed
qed

section \<open>Free lists of spans\<close>

lemma bucket_update: "bucket (AList.update k v fs) j = (if j = k then v else bucket fs j)"
  by (simp add: bucket_def update_conv')

lemma bucket_touch: "bucket (touch fs k) j = bucket fs j"
  by (cases "map_of fs k") (simp_all add: touch_def bucket_update, simp add: bucket_def)

lemma spanList_head: "spanList st h rs \<Longrightarrow> h = (case rs of [] \<Rightarrow> None | r # _ \<Rightarrow> Some r)"
  by (cases rs) simp_all

lemma spanList_unique: "spanList st h rs \<Longrightarrow> spanList st h rs' \<Longrightarrow> rs = rs'"
proof (induction rs arbitrary: h rs')
  case Nil
  then show ?case by (cases rs') simp_all
next
  case (Cons r rs)
  then show ?case
    by (cases rs') (auto split: option.splits)
qed

lemma spanList_suffix:
  "spanList st h rs \<Longrightarrow> r \<in> set rs \<Longrightarrow> \<exists>pre post. rs = pre @ r # post \<and> spanList st (Some r) (r # post)"
proof (induction rs arbitrary: h)
  case Nil
  then show ?case by simp
next
  case (Cons a rs)
  show ?case
  proof (cases "r = a")
    case True
    with Cons.prems(1) have "a # rs = [] @ r # rs \<and> spanList st (Some r) (r # rs)"
      by simp
    then show ?thesis by blast
  next
    case False
    with Cons.prems obtain sp where sp: "st a = Some sp" "spanList st (next sp) rs" "r \<in> set rs"
      by (auto split: option.splits)
    from Cons.IH[OF sp(2,3)] obtain pre post where "rs = pre @ r # post" "spanList st (Some r) (r # post)"
      by blast
    then have "a # rs = (a # pre) @ r # post \<and> spanList st (Some r) (r # post)"
      by simp
    then show ?thesis by blast
  qed
qed

lemma spanList_head_notin_tail:
  assumes "spanList st (Some r) (r # rs)"
  shows "r \<notin> set rs"
proof
  assume "r \<in> set rs"
  from assms obtain sp where sp: "st r = Some sp" "spanList st (next sp) rs"
    by (auto split: option.splits)
  from spanList_suffix[OF sp(2) \<open>r \<in> set rs\<close>] obtain pre post
    where d: "rs = pre @ r # post" and l: "spanList st (Some r) (r # post)"
    by blast
  from l sp(1) have "spanList st (next sp) post"
    by simp
  with sp(2) have "rs = post"
    by (rule spanList_unique)
  with d show False
    by simp
qed

lemma spanList_distinct: "spanList st h rs \<Longrightarrow> distinct rs"
proof (induction rs arbitrary: h)
  case Nil
  then show ?case by simp
next
  case (Cons r rs)
  then have "spanList st (Some r) (r # rs)"
    by simp
  then have "r \<notin> set rs"
    by (rule spanList_head_notin_tail)
  moreover from Cons have "distinct rs"
    by (auto split: option.splits)
  ultimately show ?case by simp
qed

lemma spanList_frame: "r \<notin> set rs \<Longrightarrow> spanList (st(r := v)) h rs = spanList st h rs"
  by (induction rs arbitrary: h) (auto split: option.splits)

lemma unlinkWalk_notfound:
  "spanList st (Some prev) (prev # rs) \<Longrightarrow> t \<notin> set rs \<Longrightarrow>
   unlinkWalk st prev t = Some (Inr (st, False))"
proof (induction rs arbitrary: prev)
  case Nil
  then show ?case
    by (auto split: option.splits simp: unlinkWalk_end)
next
  case (Cons r rs)
  from Cons.prems obtain p where p: "st prev = Some p" "next p = Some r" "spanList st (Some r) (r # rs)"
    by (auto split: option.splits)
  from Cons.prems have "r \<noteq> t" "t \<notin> set rs"
    by auto
  with p Cons.IH show ?case
    by (simp add: unlinkWalk_step)
qed

lemma unlinkWalk_found:
  assumes "spanList st (Some prev) (prev # rs)" and "t \<in> set rs" and "st t = Some N"
  shows "\<exists>st'. unlinkWalk st prev t = Some (Inr (st', True)) \<and>
              spanList st' (Some prev) (prev # remove1 t rs) \<and>
              (\<forall>r. r \<notin> set (prev # rs) \<longrightarrow> st' r = st r) \<and> st' t = Some N"
  using assms
proof (induction rs arbitrary: prev)
  case Nil
  then show ?case by simp
next
  case (Cons r rs)
  from Cons.prems(1) obtain p where p: "st prev = Some p" "next p = Some r" "spanList st (Some r) (r # rs)"
    by (auto split: option.splits)
  from Cons.prems(1) have dist: "distinct (prev # r # rs)"
    by (rule spanList_distinct)
  show ?case
  proof (cases "r = t")
    case True
    let ?st = "st(prev \<mapsto> p\<lparr>next := next N\<rparr>)"
    have w: "unlinkWalk st prev t = Some (Inr (?st, True))"
      using p True Cons.prems(3) by (simp add: unlinkWalk_hit)
    from p(3) True Cons.prems(3) have "spanList st (next N) rs"
      by simp
    with dist have "spanList ?st (next N) rs"
      by (simp add: spanList_frame)
    then have "spanList ?st (Some prev) (prev # remove1 t (r # rs))"
      using True by simp
    moreover have "\<forall>x. x \<notin> set (prev # r # rs) \<longrightarrow> ?st x = st x"
      by simp
    moreover have "?st t = Some N"
      using dist True Cons.prems(3) by auto
    ultimately show ?thesis
      using w by blast
  next
    case False
    with Cons.prems(2) have "t \<in> set rs"
      by simp
    from Cons.IH[OF p(3) this Cons.prems(3)] obtain st'
      where s: "unlinkWalk st r t = Some (Inr (st', True))"
        "spanList st' (Some r) (r # remove1 t rs)"
        "\<forall>x. x \<notin> set (r # rs) \<longrightarrow> st' x = st x" "st' t = Some N"
      by blast
    from s(3) dist have "st' prev = st prev"
      by simp
    with p s(2) have "spanList st' (Some prev) (prev # remove1 t (r # rs))"
      using False by simp
    moreover have "unlinkWalk st prev t = Some (Inr (st', True))"
      using p False s(1) by (simp add: unlinkWalk_step)
    moreover have "\<forall>x. x \<notin> set (prev # r # rs) \<longrightarrow> st' x = st x"
      using s(3) by simp
    ultimately show ?thesis
      using s(4) by blast
  qed
qed

lemma mergeNext_found:
  assumes N: "spans pc nextSpan = Some N"
    and lst: "spanList (spans pc) (bucket (freeSpans pc) (numPages N)) rs"
    and mem: "nextSpan \<in> set rs"
    and out: "span \<notin> set rs"
    and S: "spans pc span = Some S"
  shows "\<exists>st1 fs1.
           mergeNext pc span nextAddr nextSpan =
             Some (Inr (pc\<lparr>spans := (st1(span \<mapsto> S\<lparr>numPages := numPages S + numPages N\<rparr>))
                                       (nextSpan := None),
                           freeSpans := fs1,
                           spanMap := (spanMap pc)(nextAddr := None)\<rparr>)) \<and>
           spanList st1 (bucket fs1 (numPages N)) (remove1 nextSpan rs) \<and>
           (\<forall>j. j \<noteq> numPages N \<longrightarrow> bucket fs1 j = bucket (freeSpans pc) j)"
proof -
  let ?k = "numPages N"
  let ?fs = "touch (freeSpans pc) ?k"
  let ?merged = "\<lambda>st1 fs1. pc\<lparr>spans := (st1(span \<mapsto> S\<lparr>numPages := numPages S + numPages N\<rparr>))
                                       (nextSpan := None),
                           freeSpans := fs1,
                           spanMap := (spanMap pc)(nextAddr := None)\<rparr>"
  from mem obtain r rs' where rs: "rs = r # rs'"
    by (cases rs) auto
  with lst have h: "bucket ?fs ?k = Some r"
    by (simp add: bucket_touch)
  show ?thesis
  proof (cases "r = nextSpan")
    case True
    let ?fs1 = "AList.update ?k (next N) ?fs"
    have "mergeNext pc span nextAddr nextSpan = Some (Inr (?merged (spans pc) ?fs1))"
      using N S h True by (simp add: mergeNext_def Let_def)
    moreover have "spanList (spans pc) (bucket ?fs1 ?k) (remove1 nextSpan rs)"
      using lst rs True N by (simp add: bucket_update)
    moreover have "\<forall>j. j \<noteq> ?k \<longrightarrow> bucket ?fs1 j = bucket (freeSpans pc) j"
      by (simp add: bucket_update bucket_touch)
    ultimately show ?thesis
      by blast
  next
    case False
    with mem rs have t: "nextSpan \<in> set rs'"
      by simp
    from lst rs have l: "spanList (spans pc) (Some r) (r # rs')"
      by (simp add: bucket_touch)
    from unlinkWalk_found[OF l t N] obtain st1
      where w: "unlinkWalk (spans pc) r nextSpan = Some (Inr (st1, True))"
        and l1: "spanList st1 (Some r) (r # remove1 nextSpan rs')"
        and fr: "\<forall>x. x \<notin> set (r # rs') \<longrightarrow> st1 x = spans pc x"
        and n1: "st1 nextSpan = Some N"
      by blast
    from fr out rs S have s1: "st1 span = Some S"
      by simp
    have "mergeNext pc span nextAddr nextSpan = Some (Inr (?merged st1 ?fs))"
      using N h False w s1 n1 by (simp add: mergeNext_def Let_def)
    moreover have "spanList st1 (bucket ?fs ?k) (remove1 nextSpan rs)"
      using l1 h rs False by simp
    moreover have "\<forall>j. j \<noteq> ?k \<longrightarrow> bucket ?fs j = bucket (freeSpans pc) j"
      by (simp add: bucket_touch)
    ultimately show ?thesis
      by blast
  qed
qed

lemma mergeNext_notfound:
  assumes N: "spans pc nextSpan = Some N"
    and lst: "spanList (spans pc) (bucket (freeSpans pc) (numPages N)) rs"
    and mem: "nextSpan \<notin> set rs"
  shows "mergeNext pc span nextAddr nextSpan =
           Some (Inr (pc\<lparr>spans := spans pc, freeSpans := touch (freeSpans pc) (numPages N)\<rparr>))"
proof (cases rs)
  case Nil
  with lst show ?thesis
    using N by (simp add: mergeNext_def Let_def bucket_touch)
next
  case (Cons r rs')
  with lst have h: "bucket (freeSpans pc) (numPages N) = Some r"
    and l: "spanList (spans pc) (Some r) (r # rs')"
    by simp_all
  from mem Cons have ne: "r \<noteq> nextSpan" "nextSpan \<notin> set rs'"
    by auto
  from unlinkWalk_notfound[OF l ne(2)] show ?thesis
    using N h ne(1) by (simp add: mergeNext_def Let_def bucket_touch)
qed

lemma Span_updates:
  "(S::Span)\<lparr>numPages := a, next := b\<rparr> = \<lparr>pageAddr = pageAddr S, numPages = a, next = b\<rparr>"
  by (cases S) simp

section \<open>Carving a span into blocks\<close>

declare linkBlocks.simps [simp del]

lemma unat_succ_less: "(a::size_t) < b \<Longrightarrow> unat (a + 1) = Suc (unat a)"
  by unat_arith

lemma word_pos_of_less: "(a::size_t) < b \<Longrightarrow> 0 < b"
  by unat_arith

lemma pred_of_nat:
  assumes "0 < (a::size_t)"
  shows "a - 1 = of_nat (unat a - 1)"
proof -
  from assms have "a \<noteq> 0"
    by auto
  then have "unat (a - 1) = unat a - 1"
    by (rule unat_minus_one)
  then have "of_nat (unat (a - 1)) = (of_nat (unat a - 1) :: size_t)"
    by simp
  then show ?thesis
    by simp
qed

lemma blk_unat:
  assumes "unat start + j * unat bsize < 2 ^ 64" and "0 < unat bsize"
  shows "unat (start + of_nat j * (bsize::size_t)) = unat start + j * unat bsize"
proof -
  from assms(2) have "j \<le> j * unat bsize"
    by simp
  with assms(1) have j: "j < 2 ^ 64"
    by linarith
  then have uj: "unat (of_nat j :: size_t) = j"
    by (simp add: unat_of_nat)
  from assms(1) have "unat (of_nat j :: size_t) * unat bsize < 2 ^ LENGTH(64)"
    by (simp add: uj)
  then have um: "unat (of_nat j * bsize) = j * unat bsize"
    by (simp add: unat_mult_lem[THEN iffD1] uj)
  from assms(1) have "unat start + unat (of_nat j * bsize) < 2 ^ LENGTH(64)"
    by (simp add: um)
  then show ?thesis
    by (simp add: unat_add_lem[THEN iffD1] um)
qed

text \<open>no wrap: the blocks 0..N-1 lie inside the address space\<close>

lemma blk_inj:
  assumes nw: "unat start + N * unat bsize \<le> 2 ^ 64" and pos: "0 < unat bsize"
    and j: "j < N" and k: "k < N"
    and eq: "start + of_nat j * (bsize::size_t) = start + of_nat k * bsize"
  shows "j = k"
proof -
  have b: "\<And>i. i < N \<Longrightarrow> unat start + i * unat bsize < 2 ^ 64"
  proof -
    fix i assume "i < N"
    then have "Suc i \<le> N" by simp
    then have "Suc i * unat bsize \<le> N * unat bsize"
      by (rule mult_le_mono1)
    with nw pos show "unat start + i * unat bsize < 2 ^ 64"
      by simp
  qed
  from eq have "unat (start + of_nat j * bsize) = unat (start + of_nat k * bsize)"
    by simp
  then have "unat start + j * unat bsize = unat start + k * unat bsize"
    using blk_unat[OF b[OF j] pos] blk_unat[OF b[OF k] pos] by simp
  with pos show ?thesis
    by simp
qed

lemma blk_nonnull:
  assumes nw: "unat start + N * unat bsize \<le> 2 ^ 64" and pos: "0 < unat bsize"
    and j: "j < N" and nn: "start \<noteq> 0"
  shows "start + of_nat j * (bsize::size_t) \<noteq> 0"
proof -
  from j have "Suc j \<le> N" by simp
  then have "Suc j * unat bsize \<le> N * unat bsize"
    by (rule mult_le_mono1)
  with nw pos have "unat start + j * unat bsize < 2 ^ 64"
    by simp
  from blk_unat[OF this pos] have "unat (start + of_nat j * bsize) = unat start + j * unat bsize" .
  moreover from nn have "0 < unat start"
    by (simp add: unat_gt_0)
  ultimately have "unat (start + of_nat j * bsize) \<noteq> 0"
    by simp
  then show ?thesis
    by (metis unat_0)
qed

lemma linkBlocks_unchanged:
  assumes "0 < i"
    and "\<forall>j. unat i \<le> Suc j \<and> Suc j < unat n \<longrightarrow> a \<noteq> start + of_nat j * bsize"
  shows "linkBlocks start bsize i n m a = m a"
  using assms
proof (induction start bsize i n m rule: linkBlocks.induct)
  case (1 start bsize i n m)
  show ?case
  proof (cases "i < n")
    case False
    then show ?thesis
      by (subst linkBlocks.simps) simp
  next
    case True
    then have s: "unat (i + 1) = Suc (unat i)"
      by (rule unat_succ_less)
    then have pos: "0 < i + 1"
      by (simp add: word_less_nat_alt)
    have rest: "\<forall>j. unat (i + 1) \<le> Suc j \<and> Suc j < unat n \<longrightarrow> a \<noteq> start + of_nat j * bsize"
      using "1.prems"(2) s by auto
    from True "1.prems"(1) have "unat i \<le> Suc (unat i - 1) \<and> Suc (unat i - 1) < unat n"
      by (simp add: word_less_nat_alt)
    with "1.prems"(2) have "a \<noteq> start + of_nat (unat i - 1) * bsize"
      by blast
    then have ne: "a \<noteq> start + (i - 1) * bsize"
      using pred_of_nat[OF "1.prems"(1)] by simp
    have "linkBlocks start bsize i n m a =
            linkBlocks start bsize (i + 1) n (m(start + (i - 1) * bsize := start + i * bsize)) a"
      using True by (subst linkBlocks.simps) simp
    also have "\<dots> = (m(start + (i - 1) * bsize := start + i * bsize)) a"
      using "1.IH"[OF True pos rest] .
    also have "\<dots> = m a"
      using ne by simp
    finally show ?thesis .
  qed
qed

lemma linkBlocks_linked:
  assumes "0 < i" and "unat i \<le> Suc k" and "Suc k < unat n"
    and "\<forall>j j'. j < unat n \<longrightarrow> j' < unat n \<longrightarrow>
           start + of_nat j * bsize = start + of_nat j' * bsize \<longrightarrow> j = j'"
  shows "linkBlocks start bsize i n m (start + of_nat k * bsize) = start + of_nat (Suc k) * bsize"
  using assms
proof (induction start bsize i n m rule: linkBlocks.induct)
  case (1 start bsize i n m)
  from "1.prems" have lt: "i < n"
    by (simp add: word_less_nat_alt)
  then have s: "unat (i + 1) = Suc (unat i)"
    by (rule unat_succ_less)
  then have pos: "0 < i + 1"
    by (simp add: word_less_nat_alt)
  let ?m = "m(start + (i - 1) * bsize := start + i * bsize)"
  have unf: "linkBlocks start bsize i n m (start + of_nat k * bsize) =
               linkBlocks start bsize (i + 1) n ?m (start + of_nat k * bsize)"
    using lt by (subst linkBlocks.simps) simp
  show ?case
  proof (cases "unat i = Suc k")
    case True
    have "\<forall>j. unat (i + 1) \<le> Suc j \<and> Suc j < unat n \<longrightarrow>
            start + of_nat k * bsize \<noteq> start + of_nat j * bsize"
    proof (intro allI impI)
      fix j assume j: "unat (i + 1) \<le> Suc j \<and> Suc j < unat n"
      show "start + of_nat k * bsize \<noteq> start + of_nat j * bsize"
      proof
        assume e: "start + of_nat k * bsize = start + of_nat j * bsize"
        from j "1.prems"(3) have "k < unat n" "j < unat n"
          by simp_all
        with "1.prems"(4) e have "k = j"
          by blast
        with j s True show False
          by simp
      qed
    qed
    from linkBlocks_unchanged[OF pos this]
    have "linkBlocks start bsize (i + 1) n ?m (start + of_nat k * bsize) = ?m (start + of_nat k * bsize)" .
    moreover have "i - 1 = of_nat k"
      using pred_of_nat[OF "1.prems"(1)] True by simp
    moreover have "i = of_nat (Suc k)"
      using True by (metis of_nat_unat ucast_id)
    ultimately show ?thesis
      using unf by simp
  next
    case False
    with "1.prems"(2) s have "unat (i + 1) \<le> Suc k"
      by simp
    from "1.IH"[OF lt pos this "1.prems"(3,4)]
    have "linkBlocks start bsize (i + 1) n ?m (start + of_nat k * bsize) =
            start + of_nat (Suc k) * bsize" .
    with unf show ?thesis
      by (simp only:)
  qed
qed

lemma blockList_chain:
  assumes "i < n"
    and "\<forall>j. i \<le> j \<and> Suc j < n \<longrightarrow> m (start + of_nat j * bsize) = start + of_nat (Suc j) * bsize"
    and "m (start + of_nat (n - 1) * bsize) = 0"
    and "\<forall>j. j < n \<longrightarrow> start + of_nat j * bsize \<noteq> 0"
  shows "blockList m (start + of_nat i * bsize) (blocksFrom start bsize i n)"
  using assms
proof (induction "n - i" arbitrary: i)
  case 0
  then show ?case by simp
next
  case (Suc d)
  have c: "blocksFrom start bsize i n = (start + of_nat i * bsize) # blocksFrom start bsize (Suc i) n"
    using Suc.prems(1) by (simp add: blocksFrom_def upt_conv_Cons)
  have nn: "start + of_nat i * bsize \<noteq> 0"
    using Suc.prems(1,4) by blast
  show ?case
  proof (cases "Suc i = n")
    case True
    then have "blocksFrom start bsize (Suc i) n = []"
      by (simp add: blocksFrom_def)
    moreover from True Suc.prems(3) have "m (start + of_nat i * bsize) = 0"
      by auto
    ultimately show ?thesis
      using c nn by simp
  next
    case False
    with Suc.prems(1) have lt: "Suc i < n"
      by simp
    from Suc.hyps(2) have d: "d = n - Suc i"
      by simp
    have "blockList m (start + of_nat (Suc i) * bsize) (blocksFrom start bsize (Suc i) n)"
      using Suc.hyps(1)[OF d lt] Suc.prems(2,3,4) by simp
    moreover from lt Suc.prems(2) have "m (start + of_nat i * bsize) = start + of_nat (Suc i) * bsize"
      by blast
    ultimately show ?thesis
      using c nn by simp
  qed
qed

lemma carve_memory:
  fixes start bsize A T :: size_t and m :: memory
  defines "m1 \<equiv> (if 1 < A then (linkBlocks start bsize 1 A m)(start + (A - 1) * bsize := nullptr) else m)"
  defines "m2 \<equiv> carve start bsize A T m"
  assumes le: "A \<le> T" and nz: "A = 0 \<longrightarrow> T = 0"
    and nw: "unat start + unat T * unat bsize \<le> 2 ^ 64" and pos: "0 < unat bsize"
  shows "Suc k < unat A \<Longrightarrow> m2 (start + of_nat k * bsize) = start + of_nat (Suc k) * bsize"
    and "1 < A \<Longrightarrow> m2 (start + of_nat (unat A - 1) * bsize) = nullptr"
    and "unat A \<le> k \<Longrightarrow> Suc k < unat T \<Longrightarrow>
           m2 (start + of_nat k * bsize) = start + of_nat (Suc k) * bsize"
    and "A < T \<Longrightarrow> m2 (start + of_nat (unat T - 1) * bsize) = nullptr"
    and "A \<le> 1 \<Longrightarrow> m2 start = m start"
proof -
  have m2_def: "m2 = (if A < T then (linkBlocks start bsize (A + 1) T m1)(start + (T - 1) * bsize := nullptr)
                      else m1)"
    by (simp add: m2_def m1_def carve_def Let_def)
  from le have leN: "unat A \<le> unat T"
    by (simp add: word_le_nat_alt)
  have inj: "\<And>j j'. j < unat T \<Longrightarrow> j' < unat T \<Longrightarrow>
               start + of_nat j * bsize = start + of_nat j' * bsize \<Longrightarrow> j = j'"
    using blk_inj[OF nw pos] by blast
  have injT: "\<forall>j j'. j < unat T \<longrightarrow> j' < unat T \<longrightarrow>
               start + of_nat j * bsize = start + of_nat j' * bsize \<longrightarrow> j = j'"
    using inj by blast
  have injA: "\<forall>j j'. j < unat A \<longrightarrow> j' < unat A \<longrightarrow>
               start + of_nat j * bsize = start + of_nat j' * bsize \<longrightarrow> j = j'"
    using inj leN by (meson less_le_trans)
  have lastA: "0 < A \<Longrightarrow> start + (A - 1) * bsize = start + of_nat (unat A - 1) * bsize"
    using pred_of_nat by simp
  have lastT: "0 < T \<Longrightarrow> start + (T - 1) * bsize = start + of_nat (unat T - 1) * bsize"
    using pred_of_nat by simp
  \<comment> \<open>the second loop leaves the blocks of the first list alone\<close>
  have keep: "m2 (start + of_nat k * bsize) = m1 (start + of_nat k * bsize)" if k: "k < unat A" for k
  proof (cases "A < T")
    case False
    then show ?thesis by (simp add: m2_def)
  next
    case True
    then have lt: "unat A < unat T"
      by (simp add: word_less_nat_alt)
    have s: "unat (A + 1) = Suc (unat A)"
      using True by (rule unat_succ_less)
    then have p1: "0 < A + 1"
      by (simp add: word_less_nat_alt)
    from True have pT: "0 < T"
      by (rule word_pos_of_less)
    have "start + of_nat k * bsize \<noteq> start + of_nat (unat T - 1) * bsize"
    proof
      assume "start + of_nat k * bsize = start + of_nat (unat T - 1) * bsize"
      then have "k = unat T - 1"
        using k lt by (intro inj) simp_all
      with k lt show False by simp
    qed
    then have a: "start + of_nat k * bsize \<noteq> start + (T - 1) * bsize"
      using lastT[OF pT] by simp
    have "\<forall>j. unat (A + 1) \<le> Suc j \<and> Suc j < unat T \<longrightarrow>
            start + of_nat k * bsize \<noteq> start + of_nat j * bsize"
    proof (intro allI impI)
      fix j assume j: "unat (A + 1) \<le> Suc j \<and> Suc j < unat T"
      show "start + of_nat k * bsize \<noteq> start + of_nat j * bsize"
      proof
        assume "start + of_nat k * bsize = start + of_nat j * bsize"
        then have "k = j"
          using k lt j by (intro inj) simp_all
        with j s k show False by simp
      qed
    qed
    from linkBlocks_unchanged[OF p1 this] a True show ?thesis
      by (simp add: m2_def)
  qed
  show "m2 (start + of_nat k * bsize) = start + of_nat (Suc k) * bsize" if k: "Suc k < unat A"
  proof -
    from k have gt: "1 < A"
      by (simp add: word_less_nat_alt)
    then have pA: "0 < A"
      by (rule word_pos_of_less)
    have "start + of_nat k * bsize \<noteq> start + of_nat (unat A - 1) * bsize"
    proof
      assume "start + of_nat k * bsize = start + of_nat (unat A - 1) * bsize"
      then have "k = unat A - 1"
        using k leN by (intro inj) simp_all
      with k show False by simp
    qed
    then have a: "start + of_nat k * bsize \<noteq> start + (A - 1) * bsize"
      using lastA[OF pA] by simp
    have "linkBlocks start bsize 1 A m (start + of_nat k * bsize) = start + of_nat (Suc k) * bsize"
      using k injA by (intro linkBlocks_linked) simp_all
    with a gt have "m1 (start + of_nat k * bsize) = start + of_nat (Suc k) * bsize"
      by (simp add: m1_def)
    with keep[of k] k show ?thesis
      by simp
  qed
  show "m2 (start + of_nat (unat A - 1) * bsize) = nullptr" if gt: "1 < A"
  proof -
    from gt have pA: "0 < A"
      by (rule word_pos_of_less)
    then have "unat A - 1 < unat A"
      by (simp add: word_less_nat_alt)
    from keep[OF this] gt lastA[OF pA] show ?thesis
      by (simp add: m1_def)
  qed
  show "m2 (start + of_nat k * bsize) = start + of_nat (Suc k) * bsize"
    if k: "unat A \<le> k" "Suc k < unat T"
  proof -
    from k have lt: "A < T"
      by (simp add: word_less_nat_alt)
    have s: "unat (A + 1) = Suc (unat A)"
      using lt by (rule unat_succ_less)
    then have p1: "0 < A + 1"
      by (simp add: word_less_nat_alt)
    from lt have pT: "0 < T"
      by (rule word_pos_of_less)
    have "start + of_nat k * bsize \<noteq> start + of_nat (unat T - 1) * bsize"
    proof
      assume "start + of_nat k * bsize = start + of_nat (unat T - 1) * bsize"
      then have "k = unat T - 1"
        using k by (intro inj) simp_all
      with k show False by simp
    qed
    then have a: "start + of_nat k * bsize \<noteq> start + (T - 1) * bsize"
      using lastT[OF pT] by simp
    have "linkBlocks start bsize (A + 1) T m1 (start + of_nat k * bsize) =
            start + of_nat (Suc k) * bsize"
      using p1 k s injT by (intro linkBlocks_linked) simp_all
    with a lt show ?thesis
      by (simp add: m2_def)
  qed
  show "m2 (start + of_nat (unat T - 1) * bsize) = nullptr" if lt: "A < T"
  proof -
    from lt have pT: "0 < T"
      by (rule word_pos_of_less)
    from lastT[OF pT] lt show ?thesis
      by (simp add: m2_def)
  qed
  show "m2 start = m start" if a1: "A \<le> 1"
  proof (cases "A = 0")
    case True
    with nz show ?thesis
      by (simp add: m2_def m1_def)
  next
    case False
    then have "0 < unat A"
      by (simp add: unat_gt_0)
    from keep[OF this] have "m2 start = m1 start"
      by simp
    moreover from a1 have "\<not> 1 < A"
      by (simp add: not_less)
    ultimately show ?thesis
      by (simp add: m1_def)
  qed
qed

lemma fetchFromPageCache_pages:
  "fetchFromPageCache pc m os bsize = allocateSpan pc m os (spanPagesFor bsize)"
  by (simp add: fetchFromPageCache_def spanPagesFor_def Let_def)

lemma spanPagesFor_eq:
  "spanPagesFor bsize = (if bsize \<le> 8 * 4096 then 8 else (bsize + 4095) div 4096)"
  by (simp add: spanPagesFor_def SPAN_PAGES_def PAGE_SIZE_def add.commute)

lemma fetchRange_refill_unfold:
  fixes s os index batchNum start pc m
  defines "bsize \<equiv> classSize index"
  defines "T \<equiv> (SPAN_PAGES * PAGE_SIZE) div bsize"
  defines "A \<equiv> min batchNum T"
  assumes idx: "index < FREE_LIST_SIZE" and bn: "batchNum \<noteq> 0"
    and free: "\<not> locks (centralCache s) index"
    and empty: "centralFreeList (centralCache s) index = nullptr"
    and res: "fetchFromPageCache (pageCache s) (memory s) os bsize = Inr (start, pc, m)"
    and nn: "start \<noteq> nullptr"
  shows "fetchRange s os index batchNum =
           Some (Inr (start,
             \<lparr>memory = carve start bsize A T m, pageCache = pc,
              centralCache =
                \<lparr>centralFreeList =
                   (if A < T then (centralFreeList (centralCache s))(index := start + A * bsize)
                    else centralFreeList (centralCache s)),
                 locks = locks (centralCache s)\<rparr>\<rparr>))"
proof -
  have l: "(locks (centralCache s))(index := False) = locks (centralCache s)"
    using free by (simp add: fun_eq_iff)
  have g: "\<not> FREE_LIST_SIZE \<le> index"
    using idx by (simp add: not_le)
  have c: "(A < T) = (min batchNum T < T)"
    by (simp add: A_def)
  show ?thesis
    using res nn bn free empty
    unfolding fetchRange_def c
    unfolding A_def T_def bsize_def classSize_def
    by (simp add: g l spinLock_free Let_def split del: if_split)
qed

lemma classSize_unat:
  assumes "index < FREE_LIST_SIZE"
  shows "unat (classSize index) = (unat index + 1) * 8" and "unat index < 32768"
proof -
  from assms show i: "unat index < 32768"
    by (simp add: FREE_LIST_SIZE_def MAX_BYTES_def ALIGNMENT_def word_less_nat_alt)
  then show "unat (classSize index) = (unat index + 1) * 8"
    by (simp add: classSize_def ALIGNMENT_def unat_word_ariths)
qed

lemma totalBlocks_unat:
  assumes "index < FREE_LIST_SIZE"
  shows "unat ((SPAN_PAGES * PAGE_SIZE) div classSize index) = 32768 div unat (classSize index)"
  by (simp add: SPAN_PAGES_def PAGE_SIZE_def unat_div)

lemma round_pages_one_block:
  assumes "32768 < (B::nat)"
  shows "(B + 4095) div 4096 * 4096 div B = 1"
proof -
  let ?q = "(B + 4095) div 4096"
  have up: "?q * 4096 \<le> B + 4095"
    by simp
  have "B + 4095 < Suc ?q * 4096"
    using dividend_less_div_times[of 4096 "B + 4095"] by simp
  then have lo: "B \<le> ?q * 4096"
    by simp
  from up assms have "?q * 4096 < 2 * B"
    by linarith
  with lo show ?thesis
    by (intro div_nat_eqI) simp_all
qed

lemma large_class_one_block:
  assumes idx: "index < FREE_LIST_SIZE" and big: "\<not> classSize index \<le> 8 * 4096"
  shows "unat (((classSize index + 4095) div 4096 * 4096) div classSize index) = 1"
    and "(SPAN_PAGES * PAGE_SIZE) div classSize index = 0"
proof -
  let ?B = "unat (classSize index)"
  from classSize_unat[OF idx] have B: "?B \<le> 262144"
    by simp
  from big have lo: "32768 < ?B"
    by (simp add: word_le_nat_alt not_le)
  have u1: "unat (classSize index + 4095) = ?B + 4095"
    using B by (simp add: unat_word_ariths)
  have u2: "unat ((classSize index + 4095) div 4096) = (?B + 4095) div 4096"
    by (simp add: unat_div u1)
  have "(?B + 4095) div 4096 * 4096 \<le> ?B + 4095"
    by simp
  with B have "(?B + 4095) div 4096 * 4096 < 2 ^ 64"
    by simp
  then have u3: "unat ((classSize index + 4095) div 4096 * 4096) = (?B + 4095) div 4096 * 4096"
    by (simp add: unat_word_ariths u2)
  show "unat (((classSize index + 4095) div 4096 * 4096) div classSize index) = 1"
    using round_pages_one_block[OF lo] by (simp add: unat_div u3)
  have "unat ((SPAN_PAGES * PAGE_SIZE) div classSize index) = 0"
    using lo by (simp add: totalBlocks_unat[OF idx])
  then show "(SPAN_PAGES * PAGE_SIZE) div classSize index = 0"
    by (simp add: unat_eq_0)
qed

lemma unat_min: "unat (min (a::size_t) b) = min (unat a) (unat b)"
  by (simp add: min_def word_le_nat_alt)

lemma small_class_carving:
  fixes index batchNum start :: size_t and m :: memory
  defines "bsize \<equiv> classSize index"
  defines "Tw \<equiv> (SPAN_PAGES * PAGE_SIZE) div bsize"
  defines "Aw \<equiv> min batchNum Tw"
  defines "m2 \<equiv> carve start bsize Aw Tw m"
  assumes idx: "index < FREE_LIST_SIZE" and bn: "batchNum \<noteq> 0"
    and small: "bsize \<le> 8 * 4096"
    and nn: "start \<noteq> nullptr"
    and nw: "unat start + 32768 \<le> 2 ^ 64"
  shows "1 \<le> unat Aw" and "unat Aw \<le> unat Tw"
    and "Aw \<le> 1 \<Longrightarrow> m2 start = m start"
    and "1 < Aw \<Longrightarrow> blockList m2 start (blocksFrom start bsize 0 (unat Aw))"
    and "1 < Aw \<Longrightarrow> m2 (start + (Aw - 1) * bsize) = nullptr"
    and "blockList m2 (if Aw < Tw then start + Aw * bsize else nullptr)
           (blocksFrom start bsize (unat Aw) (unat Tw))"
proof -
  let ?B = "unat bsize"
  have B: "?B = (unat index + 1) * 8"
    using classSize_unat(1)[OF idx] by (simp add: bsize_def)
  then have pos: "0 < ?B"
    by simp
  from small have Ble: "?B \<le> 32768"
    by (simp add: word_le_nat_alt)
  have T: "unat Tw = 32768 div ?B"
    using totalBlocks_unat[OF idx] by (simp add: Tw_def bsize_def)
  with pos Ble have T1: "1 \<le> unat Tw"
    by (simp add: Suc_le_eq div_greater_zero_iff)
  from bn have "1 \<le> unat batchNum"
    by (simp add: Suc_le_eq unat_gt_0)
  with T1 show A1: "1 \<le> unat Aw"
    by (simp add: Aw_def unat_min)
  show AT: "unat Aw \<le> unat Tw"
    by (simp add: Aw_def unat_min)
  then have le: "Aw \<le> Tw"
    by (simp add: word_le_nat_alt)
  from A1 have nz: "Aw = 0 \<longrightarrow> Tw = 0"
    by auto
  have "unat Tw * ?B \<le> 32768"
    by (simp add: T)
  with nw have nw': "unat start + unat Tw * ?B \<le> 2 ^ 64"
    by linarith
  note c = carve_memory[OF le nz nw' pos, where m = m, folded m2_def]
  have nonnull: "\<forall>j. j < unat Tw \<longrightarrow> start + of_nat j * bsize \<noteq> 0"
    using blk_nonnull[OF nw' pos _ nn] by blast
  show "m2 start = m start" if "Aw \<le> 1"
    using c(5)[OF that] .
  show "m2 (start + (Aw - 1) * bsize) = nullptr" if gt: "1 < Aw"
  proof -
    from gt have "0 < Aw"
      by (rule word_pos_of_less)
    from pred_of_nat[OF this] c(2)[OF gt] show ?thesis
      by simp
  qed
  show "blockList m2 start (blocksFrom start bsize 0 (unat Aw))" if gt: "1 < Aw"
  proof -
    have "blockList m2 (start + of_nat 0 * bsize) (blocksFrom start bsize 0 (unat Aw))"
    proof (rule blockList_chain)
      show "0 < unat Aw"
        using A1 by simp
      show "\<forall>j. 0 \<le> j \<and> Suc j < unat Aw \<longrightarrow>
              m2 (start + of_nat j * bsize) = start + of_nat (Suc j) * bsize"
        using c(1) by blast
      show "m2 (start + of_nat (unat Aw - 1) * bsize) = 0"
        using c(2)[OF gt] .
      show "\<forall>j. j < unat Aw \<longrightarrow> start + of_nat j * bsize \<noteq> 0"
        using nonnull AT by auto
    qed
    then show ?thesis
      by simp
  qed
  show "blockList m2 (if Aw < Tw then start + Aw * bsize else nullptr)
          (blocksFrom start bsize (unat Aw) (unat Tw))"
  proof (cases "Aw < Tw")
    case False
    with le have "unat Aw = unat Tw"
      by (simp add: word_le_nat_alt word_less_nat_alt)
    with False show ?thesis
      by (simp add: blocksFrom_def)
  next
    case True
    have "blockList m2 (start + of_nat (unat Aw) * bsize) (blocksFrom start bsize (unat Aw) (unat Tw))"
    proof (rule blockList_chain)
      show "unat Aw < unat Tw"
        using True by (simp add: word_less_nat_alt)
      show "\<forall>j. unat Aw \<le> j \<and> Suc j < unat Tw \<longrightarrow>
              m2 (start + of_nat j * bsize) = start + of_nat (Suc j) * bsize"
        using c(3) by blast
      show "m2 (start + of_nat (unat Tw - 1) * bsize) = 0"
        using c(4)[OF True] .
      show "\<forall>j. j < unat Tw \<longrightarrow> start + of_nat j * bsize \<noteq> 0"
        using nonnull .
    qed
    with True show ?thesis
      by simp
  qed
qed

lemma blocksFrom_eval:
  "blocksFrom start bsize i n = (if i < n then (start + of_nat i * bsize) # blocksFrom start bsize (Suc i) n else [])"
  by (simp add: blocksFrom_def upt_conv_Cons)

section \<open>CentralCache::returnRange\<close>

text \<open>
  C2. \<^verbatim>\<open>returnRange\<close> is claimed to walk the incoming list to its null terminator
  whatever \<open>size\<close> is, so that no block is dropped. The walk of the code also stops when
  its counter reaches \<open>size\<close>: nine blocks of class 0 are returned with \<open>size = 8\<close>, the
  byte size of the class. The walk stops at the eighth block, whose link is overwritten with
  the old head, and the central list holds eight blocks: the ninth, \<open>0x1040\<close>, is lost.
\<close>

theorem returnRange_drops_blocks:
  "blockList (memory drainState) 0x1000 nineBlocks \<and>
   centralFreeList (centralCache drainState) 0 = nullptr \<and>
   (case returnRange drainState 0x1000 8 0 of
      None \<Rightarrow> False
    | Some s' \<Rightarrow>
        blockList (memory s') (centralFreeList (centralCache s') 0) (butlast nineBlocks) \<and>
        last nineBlocks = 0x1040 \<and> 0x1040 \<notin> set (butlast nineBlocks))"
  by (simp add: returnRange_def FREE_LIST_SIZE_def MAX_BYTES_def ALIGNMENT_def spinLock_free
      drainState_def emptyProcess_def nineBlocks_def chained_def zeroMemory_def)

section \<open>PageCache::allocateSpan\<close>

text \<open>
  C4, as the claim states it: the tail span \<open>S'\<close> split off a free span would be recorded
  in \<^verbatim>\<open>spanMap_\<close>. After a span of 16 pages at \<open>0x10000\<close> was mapped and released,
  \<^verbatim>\<open>allocateSpan(8)\<close> splits it: the tail of 8 pages at \<open>0x18000\<close> is the head of bucket 8,
  and the registry has no entry for \<open>0x18000\<close>.
\<close>

theorem allocateSpan_split_tail_unregistered:
  "(case runPage (PageCache_init, zeroMemory) (splitRun @ [AllocateSpan 8 None]) of
      Some (Inr (pc, m)) \<Rightarrow>
        bucket (freeSpans pc) 8 = Some 1 \<and>
        spans pc 1 = Some \<lparr>pageAddr = 0x18000, numPages = 8, next = None\<rparr> \<and>
        spanMap pc 0x18000 = None \<and>
        spanMap pc 0x10000 = Some 0
    | _ \<Rightarrow> False)"
  by (simp add: splitRun_def page_eval zeroMemory_def)

text \<open>
  C4, amended. When \<^verbatim>\<open>allocateSpan(n)\<close> is served from the head \<open>S\<close> of the bucket that
  \<^verbatim>\<open>lower_bound\<close> finds and \<open>n < S.numPages\<close>: \<open>S.pageAddr\<close> is returned; a new span of
  \<open>S.numPages - n\<close> pages at \<open>S.pageAddr + n * 4096\<close> is created and becomes the head of the
  bucket of its page count, in front of what that bucket held; \<open>S\<close> gets page count \<open>n\<close>; and
  the registry gains the entry for \<open>S\<close> and nothing else, so the new span is not recorded.
\<close>

theorem allocateSpan_split:
  assumes lb: "lower_bound (freeSpans pc) n = Some (k, Some sp)"
    and live: "spans pc sp = Some S"
    and big: "n < numPages S"
    and new: "spans pc (fresh pc) = None"
  shows "case allocateSpan pc m os n of
           Inl f \<Rightarrow> False
         | Inr (p, pc', m') \<Rightarrow>
             p = pageAddr S \<and> m' = m \<and>
             spans pc' =
               (spans pc)
                 (fresh pc \<mapsto>
                    \<lparr>pageAddr = pageAddr S + n * PAGE_SIZE, numPages = numPages S - n,
                     next = (if k = numPages S - n then next S
                             else bucket (freeSpans pc) (numPages S - n))\<rparr>,
                  sp \<mapsto> S\<lparr>numPages := n\<rparr>) \<and>
             bucket (freeSpans pc') (numPages S - n) = Some (fresh pc) \<and>
             spanMap pc' = (spanMap pc)(pageAddr S \<mapsto> sp)"
proof -
  from live new have ne: "fresh pc \<noteq> sp"
    by auto
  show ?thesis
  proof (cases "next S")
    case None
    then show ?thesis
      using lb live big ne
      by (simp add: allocateSpan_def Let_def bucket_def update_conv' delete_conv')
  next
    case (Some nx)
    then show ?thesis
      using lb live big ne
      by (simp add: allocateSpan_def Let_def bucket_def update_conv' delete_conv')
  qed
qed

theorem allocateSpan_split_witness:
  "lower_bound (freeSpans freedState) 8 = Some (16, Some 0) \<and>
   spans freedState 0 = Some \<lparr>pageAddr = 0x10000, numPages = 16, next = None\<rparr> \<and>
   (8 :: size_t) < 16 \<and>
   spans freedState (fresh freedState) = None \<and>
   (case allocateSpan freedState zeroMemory None 8 of
      Inl f \<Rightarrow> False
    | Inr (p, pc', m') \<Rightarrow>
        p = 0x10000 \<and>
        spans pc' 1 = Some \<lparr>pageAddr = 0x18000, numPages = 8, next = None\<rparr> \<and>
        spans pc' 0 = Some \<lparr>pageAddr = 0x10000, numPages = 8, next = None\<rparr> \<and>
        bucket (freeSpans pc') 8 = Some 1 \<and>
        spanMap pc' = [0x10000 \<mapsto> 0])"
proof -
  have h1: "lower_bound (freeSpans freedState) 8 = Some (16, Some 0)"
    by (simp add: freedState_def)
  have h2: "spans freedState 0 = Some \<lparr>pageAddr = 0x10000, numPages = 16, next = None\<rparr>"
    by (simp add: freedState_def)
  have h3: "(8 :: size_t) < numPages \<lparr>pageAddr = 0x10000, numPages = 16, next = None\<rparr>"
    by simp
  have h4: "spans freedState (fresh freedState) = None"
    by (simp add: freedState_def)
  have f: "fresh freedState = 1" "spanMap freedState = [0x10000 \<mapsto> 0]"
    "bucket (freeSpans freedState) 8 = None"
    by (simp_all add: freedState_def bucket_def)
  show ?thesis
    using allocateSpan_split[OF h1 h2 h3 h4, of zeroMemory None] h1 h2 h4
    by (auto simp add: f PAGE_SIZE_def split: sum.splits)
qed

text \<open>
  A coalescing release unlinks the neighbour with \<^verbatim>\<open>nextList = nextSpan->next\<close> and so
  leaves the key of an emptied bucket in \<^verbatim>\<open>freeSpans_\<close> with a null head. When
  \<^verbatim>\<open>lower_bound\<close> finds that key, \<^verbatim>\<open>allocateSpan\<close> dereferences the null head: after the
  coalescing run the state has bucket 8 with a null head and the merged span in bucket 16, and
  the request for 8 pages is a fault.
\<close>

lemma allocateSpan_null_bucket:
  "(case runPage (PageCache_init, zeroMemory) (butlast coalesceThenAllocate) of
      Some (Inr (pc, m)) \<Rightarrow>
        freeSpans pc = [(8, None), (16, Some 0)] \<and>
        spans pc 0 = Some \<lparr>pageAddr = 0x10000, numPages = 16, next = None\<rparr>
    | _ \<Rightarrow> False) \<and>
   runPage (PageCache_init, zeroMemory) coalesceThenAllocate = Some (Inl NullPointer)"
  by (simp add: coalesceThenAllocate_def page_eval zeroMemory_def)

section \<open>PageCache::deallocateSpan\<close>

text \<open>
  C8. A pointer that is not a key of \<^verbatim>\<open>spanMap_\<close> is ignored: \<^verbatim>\<open>deallocateSpan\<close>
  returns and the Page Layer state is the one it was called in.
\<close>

theorem deallocateSpan_unknown_pointer:
  "spanMap pc p = None \<Longrightarrow> deallocateSpan pc p n = Some (Inr pc)"
  by (simp add: deallocateSpan_def)

theorem deallocateSpan_unknown_pointer_witness:
  "spanMap freedState 0x20000 = None \<and>
   deallocateSpan freedState 0x20000 16 = Some (Inr freedState)"
proof -
  have h: "spanMap freedState 0x20000 = None"
    by (simp add: freedState_def)
  from deallocateSpan_unknown_pointer[OF h] h show ?thesis
    by simp
qed

text \<open>
  C6, as the claim states it: a span that exists at \<open>ptr + n * 4096\<close> and is on the free
  list of its page count would be merged into the released span. After a span of 16 pages at
  \<open>0x10000\<close> was mapped and released, \<^verbatim>\<open>allocateSpan(8)\<close> splits it and returns
  \<open>0x10000\<close>; the tail of 8 pages at \<open>0x10000 + 8 * 4096\<close> is the one span on the free list
  of bucket 8. \<^verbatim>\<open>deallocateSpan(0x10000, 8)\<close> does not merge it, because the neighbour is
  looked up in \<^verbatim>\<open>spanMap_\<close>, where a tail is never recorded: the registry is unchanged,
  both spans keep their 8 pages, and the released span is linked in front of the tail.
\<close>

theorem deallocateSpan_split_tail_not_merged:
  "(case runPage (PageCache_init, zeroMemory) (splitRun @ [AllocateSpan 8 None]) of
      Some (Inr (pc, m)) \<Rightarrow>
        spanMap pc 0x10000 = Some 0 \<and>
        spans pc 0 = Some \<lparr>pageAddr = 0x10000, numPages = 8, next = None\<rparr> \<and>
        spans pc 1 = Some \<lparr>pageAddr = 0x10000 + 8 * PAGE_SIZE, numPages = 8, next = None\<rparr> \<and>
        spanList (spans pc) (bucket (freeSpans pc) 8) [1] \<and>
        (case deallocateSpan pc 0x10000 8 of
           Some (Inr pc') \<Rightarrow>
             spanMap pc' = spanMap pc \<and>
             spans pc' 0 = Some \<lparr>pageAddr = 0x10000, numPages = 8, next = Some 1\<rparr> \<and>
             spans pc' 1 = Some \<lparr>pageAddr = 0x10000 + 8 * PAGE_SIZE, numPages = 8, next = None\<rparr> \<and>
             spanList (spans pc') (bucket (freeSpans pc') 8) [0, 1]
         | _ \<Rightarrow> False)
    | _ \<Rightarrow> False)"
  by (simp add: splitRun_def page_eval zeroMemory_def)

text \<open>
  C6, amended. Let \<^verbatim>\<open>deallocateSpan(ptr, n)\<close> be called for a live span \<open>S\<close> registered at
  \<open>ptr\<close>. The neighbour is the span \<open>S'\<close> that \<^verbatim>\<open>spanMap_\<close> registers at
  \<open>ptr + n * 4096\<close>, if there is one. Assume that such an \<open>S'\<close> is live, that the bucket of
  \<open>S'.numPages\<close> is a null-terminated list \<open>rs\<close> of live spans, and that \<open>S\<close> is not itself on
  that list when \<open>S'\<close> is. Then the call returns. If \<open>S'\<close> is registered and on that list, it is
  unlinked from it, \<open>S.numPages\<close> grows by \<open>S'.numPages\<close>, and \<open>S'\<close> leaves the registry and
  is deleted. If no span is registered at \<open>ptr + n * 4096\<close>, or the registered one is not on
  that list, nothing is merged. In every case \<open>S\<close> becomes the head of the bucket of its page
  count, in front of what that bucket held.
\<close>

theorem deallocateSpan_registered:
  assumes reg: "spanMap pc p = Some span"
    and live: "spans pc span = Some S"
    and nb: "case spanMap pc (p + n * PAGE_SIZE) of
               None \<Rightarrow> True
             | Some nextSpan \<Rightarrow>
                 spans pc nextSpan = Some N \<and>
                 spanList (spans pc) (bucket (freeSpans pc) (numPages N)) rs \<and>
                 (nextSpan \<in> set rs \<longrightarrow> span \<notin> set rs)"
  shows "case deallocateSpan pc p n of
           Some (Inr pc') \<Rightarrow>
             (case spanMap pc (p + n * PAGE_SIZE) of
                Some nextSpan \<Rightarrow>
                  if nextSpan \<in> set rs then
                    spanMap pc' = (spanMap pc)(p + n * PAGE_SIZE := None) \<and>
                    spans pc' nextSpan = None \<and>
                    spans pc' span =
                      Some \<lparr>pageAddr = pageAddr S, numPages = numPages S + numPages N,
                            next = (if numPages S = 0
                                    then (case remove1 nextSpan rs of [] \<Rightarrow> None | r # _ \<Rightarrow> Some r)
                                    else bucket (freeSpans pc) (numPages S + numPages N))\<rparr> \<and>
                    bucket (freeSpans pc') (numPages S + numPages N) = Some span \<and>
                    spanList (spans pc') (bucket (freeSpans pc') (numPages N))
                      (if numPages S = 0 then span # remove1 nextSpan rs else remove1 nextSpan rs)
                  else
                    spanMap pc' = spanMap pc \<and>
                    spans pc' = (spans pc)(span \<mapsto> S\<lparr>next := bucket (freeSpans pc) (numPages S)\<rparr>) \<and>
                    bucket (freeSpans pc') (numPages S) = Some span
              | None \<Rightarrow>
                  spanMap pc' = spanMap pc \<and>
                  spans pc' = (spans pc)(span \<mapsto> S\<lparr>next := bucket (freeSpans pc) (numPages S)\<rparr>) \<and>
                  bucket (freeSpans pc') (numPages S) = Some span)
         | _ \<Rightarrow> False"
proof (cases "spanMap pc (p + n * PAGE_SIZE)")
  case None
  then show ?thesis
    using reg live by (simp add: deallocateSpan_def linkFree_def Let_def bucket_update)
next
  case (Some nextSpan)
  with nb have N: "spans pc nextSpan = Some N"
    and lst: "spanList (spans pc) (bucket (freeSpans pc) (numPages N)) rs"
    and out: "nextSpan \<in> set rs \<Longrightarrow> span \<notin> set rs"
    by simp_all
  show ?thesis
  proof (cases "nextSpan \<in> set rs")
    case False
    from mergeNext_notfound[OF N lst False] show ?thesis
      using reg live Some False
      by (simp add: deallocateSpan_def linkFree_def Let_def bucket_update bucket_touch)
  next
    case True
    let ?k = "numPages N"
    let ?K = "numPages S + numPages N"
    let ?rs = "remove1 nextSpan rs"
    from True out have o: "span \<notin> set rs" and ne: "span \<noteq> nextSpan"
      by auto
    from mergeNext_found[OF N lst True o live, of "p + n * PAGE_SIZE"] obtain st1 fs1
      where m: "mergeNext pc span (p + n * PAGE_SIZE) nextSpan =
                  Some (Inr (pc\<lparr>spans := (st1(span \<mapsto> S\<lparr>numPages := ?K\<rparr>))(nextSpan := None),
                                freeSpans := fs1,
                                spanMap := (spanMap pc)(p + n * PAGE_SIZE := None)\<rparr>))"
        and l1: "spanList st1 (bucket fs1 ?k) ?rs"
        and b1: "\<forall>j. j \<noteq> ?k \<longrightarrow> bucket fs1 j = bucket (freeSpans pc) j"
      by blast
    let ?S' = "\<lparr>pageAddr = pageAddr S, numPages = ?K, next = bucket fs1 ?K\<rparr>"
    let ?st3 = "(st1(span \<mapsto> S\<lparr>numPages := ?K\<rparr>))(nextSpan := None, span \<mapsto> ?S')"
    let ?pc' = "pc\<lparr>spans := ?st3, freeSpans := AList.update ?K (Some span) fs1,
                   spanMap := (spanMap pc)(p + n * PAGE_SIZE := None)\<rparr>"
    have d: "deallocateSpan pc p n = Some (Inr ?pc')"
      using reg Some m ne by (simp add: deallocateSpan_def linkFree_def Let_def Span_updates)
    from lst have "distinct rs"
      by (rule spanList_distinct)
    then have "nextSpan \<notin> set ?rs"
      by simp
    moreover from o have "span \<notin> set ?rs"
      by (auto dest: notin_set_remove1)
    ultimately have l3: "spanList ?st3 (bucket fs1 ?k) ?rs"
      using l1 by (simp add: spanList_frame)
    have hd: "bucket fs1 ?k = (case ?rs of [] \<Rightarrow> None | r # _ \<Rightarrow> Some r)"
      using l1 by (rule spanList_head)
    have z: "?K = ?k \<longleftrightarrow> numPages S = 0"
      by simp
    have nx: "bucket fs1 ?K = (if numPages S = 0 then (case ?rs of [] \<Rightarrow> None | r # _ \<Rightarrow> Some r)
                               else bucket (freeSpans pc) ?K)"
      using b1 hd z by auto
    have lfin: "spanList ?st3 (bucket (AList.update ?K (Some span) fs1) ?k)
                  (if numPages S = 0 then span # ?rs else ?rs)"
    proof (cases "numPages S = 0")
      case True
      with l3 show ?thesis
        by (simp add: bucket_update)
    next
      case False
      with l3 z show ?thesis
        by (simp add: bucket_update)
    qed
    show ?thesis
      using Some True ne lfin nx
      by (simp add: d bucket_update)
  qed
qed

theorem deallocateSpan_registered_witness:
  "spanMap coalesceState 0x10000 = Some 0 \<and>
   spans coalesceState 0 = Some \<lparr>pageAddr = 0x10000, numPages = 8, next = None\<rparr> \<and>
   spanMap coalesceState (0x10000 + 8 * PAGE_SIZE) = Some 1 \<and>
   spans coalesceState 1 = Some \<lparr>pageAddr = 0x18000, numPages = 4, next = None\<rparr> \<and>
   spanList (spans coalesceState) (bucket (freeSpans coalesceState) 4) [2, 1] \<and>
   (case deallocateSpan coalesceState 0x10000 8 of
      Some (Inr pc') \<Rightarrow>
        spanMap pc' = [0x10000 \<mapsto> 0, 0x40000 \<mapsto> 2] \<and>
        spans pc' 1 = None \<and>
        spans pc' 0 = Some \<lparr>pageAddr = 0x10000, numPages = 12, next = None\<rparr> \<and>
        bucket (freeSpans pc') 12 = Some 0 \<and>
        spanList (spans pc') (bucket (freeSpans pc') 4) [2]
    | _ \<Rightarrow> False)"
proof -
  let ?S = "\<lparr>pageAddr = 0x10000, numPages = 8, next = None\<rparr> :: Span"
  let ?N = "\<lparr>pageAddr = 0x18000, numPages = 4, next = None\<rparr> :: Span"
  have h1: "spanMap coalesceState 0x10000 = Some 0"
    by (simp add: coalesceState_def)
  have h2: "spans coalesceState 0 = Some ?S"
    by (simp add: coalesceState_def)
  have a: "spanMap coalesceState (0x10000 + 8 * PAGE_SIZE) = Some 1"
    by (simp add: coalesceState_def PAGE_SIZE_def)
  have n: "spans coalesceState 1 = Some ?N"
    by (simp add: coalesceState_def)
  have l: "spanList (spans coalesceState) (bucket (freeSpans coalesceState) 4) [2, 1]"
    by (simp add: coalesceState_def bucket_def)
  have h3: "case spanMap coalesceState (0x10000 + 8 * PAGE_SIZE) of
              None \<Rightarrow> True
            | Some nextSpan \<Rightarrow>
                spans coalesceState nextSpan = Some ?N \<and>
                spanList (spans coalesceState) (bucket (freeSpans coalesceState) (numPages ?N)) [2, 1] \<and>
                (nextSpan \<in> set [2, 1] \<longrightarrow> (0::sref) \<notin> set [2, 1])"
    using a n l by simp
  have m: "(spanMap coalesceState)(0x10000 + 8 * PAGE_SIZE := None) = [0x10000 \<mapsto> 0, 0x40000 \<mapsto> 2]"
    by (simp add: coalesceState_def PAGE_SIZE_def fun_eq_iff)
  have b: "bucket (freeSpans coalesceState) 12 = None"
    by (simp add: coalesceState_def bucket_def)
  have r: "case deallocateSpan coalesceState 0x10000 8 of
             Some (Inr pc') \<Rightarrow>
               spanMap pc' = [0x10000 \<mapsto> 0, 0x40000 \<mapsto> 2] \<and>
               spans pc' 1 = None \<and>
               spans pc' 0 = Some \<lparr>pageAddr = 0x10000, numPages = 12, next = None\<rparr> \<and>
               bucket (freeSpans pc') 12 = Some 0 \<and>
               spanList (spans pc') (bucket (freeSpans pc') 4) [2]
           | _ \<Rightarrow> False"
  proof (cases "deallocateSpan coalesceState 0x10000 8")
    case None
    with deallocateSpan_registered[OF h1 h2 h3] show ?thesis
      by simp
  next
    case (Some x)
    show ?thesis
    proof (cases x)
      case (Inl f)
      with Some deallocateSpan_registered[OF h1 h2 h3] show ?thesis
        by simp
    next
      case (Inr pc')
      with Some deallocateSpan_registered[OF h1 h2 h3] show ?thesis
        by (simp add: a m b)
    qed
  qed
  show ?thesis
    using h1 h2 a n l r by simp
qed




section \<open>CentralCache::fetchRange\<close>

text \<open>
  C10. A request for zero blocks returns null at once, for every class index: the lock is
  not touched (the call returns even when the lock is held) and the state is the one the
  call started in.
\<close>

theorem fetchRange_zero_batch: "fetchRange s os index 0 = Some (Inr (nullptr, s))"
  by (simp add: fetchRange_def)

theorem fetchRange_zero_batch_witness:
  "locks (centralCache (drainState\<lparr>centralCache := (centralCache drainState)\<lparr>locks := \<lambda>_. True\<rparr>\<rparr>)) 3 \<and>
   fetchRange (drainState\<lparr>centralCache := (centralCache drainState)\<lparr>locks := \<lambda>_. True\<rparr>\<rparr>)
       (Some 0x100000) 3 0 =
     Some (Inr (nullptr, drainState\<lparr>centralCache := (centralCache drainState)\<lparr>locks := \<lambda>_. True\<rparr>\<rparr>))"
  using fetchRange_zero_batch[of "drainState\<lparr>centralCache := (centralCache drainState)\<lparr>locks := \<lambda>_. True\<rparr>\<rparr>"
      "Some 0x100000" 3]
  by simp

text \<open>
  C7, as the claim states it: a carving that produces zero blocks would make
  \<^verbatim>\<open>fetchRange\<close> return null. For class index 4096 (blocks of 32776 bytes) the count
  \<^verbatim>\<open>totalBlocks\<close> is \<open>(8 * 4096) div 32776 = 0\<close>, and the call returns the base of the span
  of 9 pages that the Page Layer mapped, not null.
\<close>

theorem fetchRange_zero_blocks_returns_span:
  "(SPAN_PAGES * PAGE_SIZE) div classSize 4096 = 0 \<and>
   (case fetchRange emptyProcess (Some 0x100000) 4096 2 of
      Some (Inr (p, s')) \<Rightarrow>
        p = 0x100000 \<and>
        spans (pageCache s') 0 = Some \<lparr>pageAddr = 0x100000, numPages = 9, next = None\<rparr> \<and>
        spanMap (pageCache s') 0x100000 = Some 0
    | _ \<Rightarrow> False)"
  by (simp add: central_eval page_eval zeroMemory_def classSize_def)

text \<open>
  C7, amended. Let \<^verbatim>\<open>fetchRange\<close> find the lock free and the central list of the class
  empty, and let the Page Layer answer with the pointer \<open>p\<close>. When \<open>p\<close> is null (the system
  allocation failed), or when the carving count \<^verbatim>\<open>totalBlocks\<close> is zero, the lock is
  released and every central free list is left as it was. The call returns \<open>p\<close>: null in
  the first case, the base of the span in the second.
\<close>

theorem fetchRange_page_failure:
  assumes idx: "index < FREE_LIST_SIZE" and bn: "batchNum \<noteq> 0"
    and free: "\<not> locks (centralCache s) index"
    and empty: "centralFreeList (centralCache s) index = nullptr"
    and res: "fetchFromPageCache (pageCache s) (memory s) os (classSize index) = Inr (p, pc, m)"
    and fail: "p = nullptr \<or> (SPAN_PAGES * PAGE_SIZE) div classSize index = 0"
  shows "fetchRange s os index batchNum =
           Some (Inr (p, \<lparr>memory = m, pageCache = pc, centralCache = centralCache s\<rparr>))"
proof -
  have l: "(locks (centralCache s))(index := False) = locks (centralCache s)"
    using free by (simp add: fun_eq_iff)
  show ?thesis
  proof (cases "p = nullptr")
    case True
    then show ?thesis
      using idx bn free empty res l
      by (simp add: fetchRange_def spinLock_free Let_def classSize_def)
  next
    case False
    with fail have "(SPAN_PAGES * PAGE_SIZE) div classSize index = 0"
      by simp
    then show ?thesis
      using False idx bn free empty res l
      by (simp add: fetchRange_def carve_def spinLock_free Let_def classSize_def)
  qed
qed

theorem fetchRange_page_failure_witness:
  "(5 :: size_t) < FREE_LIST_SIZE \<and> (4096 :: size_t) < FREE_LIST_SIZE \<and> (2 :: size_t) \<noteq> 0 \<and>
   \<not> locks (centralCache emptyProcess) 5 \<and>
   \<not> locks (centralCache emptyProcess) 4096 \<and>
   centralFreeList (centralCache emptyProcess) 5 = nullptr \<and>
   centralFreeList (centralCache emptyProcess) 4096 = nullptr \<and>
   fetchFromPageCache (pageCache emptyProcess) (memory emptyProcess) None (classSize 5) =
     Inr (nullptr, PageCache_init, zeroMemory) \<and>
   fetchRange emptyProcess None 5 2 = Some (Inr (nullptr, emptyProcess)) \<and>
   fetchFromPageCache (pageCache emptyProcess) (memory emptyProcess) (Some 0x100000)
       (classSize 4096) =
     Inr (0x100000, refilledPage\<lparr>spans := [0 \<mapsto> \<lparr>pageAddr = 0x100000, numPages = 9, next = None\<rparr>]\<rparr>,
          zeroMemory) \<and>
   (SPAN_PAGES * PAGE_SIZE) div classSize 4096 = 0 \<and>
   fetchRange emptyProcess (Some 0x100000) 4096 2 =
     Some (Inr (0x100000,
       emptyProcess\<lparr>pageCache :=
         refilledPage\<lparr>spans := [0 \<mapsto> \<lparr>pageAddr = 0x100000, numPages = 9, next = None\<rparr>]\<rparr>\<rparr>))"
proof -
  let ?pc = "refilledPage\<lparr>spans := [0 \<mapsto> \<lparr>pageAddr = 0x100000, numPages = 9, next = None\<rparr>]\<rparr>"
  have h1: "(5 :: size_t) < FREE_LIST_SIZE"
    by (simp add: FREE_LIST_SIZE_def MAX_BYTES_def ALIGNMENT_def)
  have h2: "(2 :: size_t) \<noteq> 0"
    by simp
  have h3: "\<not> locks (centralCache emptyProcess) 5"
    by (simp add: emptyProcess_def)
  have h4: "centralFreeList (centralCache emptyProcess) 5 = nullptr"
    by (simp add: emptyProcess_def)
  have h5: "fetchFromPageCache (pageCache emptyProcess) (memory emptyProcess) None (classSize 5) =
              Inr (nullptr, PageCache_init, zeroMemory)"
    by (simp add: central_eval page_eval classSize_def)
  have h6: "nullptr = (nullptr :: ptr) \<or> (SPAN_PAGES * PAGE_SIZE) div classSize 5 = 0"
    by simp
  have g1: "(4096 :: size_t) < FREE_LIST_SIZE"
    by (simp add: FREE_LIST_SIZE_def MAX_BYTES_def ALIGNMENT_def)
  have g3: "\<not> locks (centralCache emptyProcess) 4096"
    by (simp add: emptyProcess_def)
  have g4: "centralFreeList (centralCache emptyProcess) 4096 = nullptr"
    by (simp add: emptyProcess_def)
  have g5: "fetchFromPageCache (pageCache emptyProcess) (memory emptyProcess) (Some 0x100000)
              (classSize 4096) = Inr (0x100000, ?pc, zeroMemory)"
    by (simp add: central_eval page_eval classSize_def refilledPage_def zeroMemory_def)
  have z: "(SPAN_PAGES * PAGE_SIZE) div classSize 4096 = 0"
    by (simp add: SPAN_PAGES_def PAGE_SIZE_def classSize_def ALIGNMENT_def)
  then have g6: "(0x100000 :: ptr) = nullptr \<or> (SPAN_PAGES * PAGE_SIZE) div classSize 4096 = 0"
    by simp
  have e: "\<lparr>memory = zeroMemory, pageCache = ?pc, centralCache = centralCache emptyProcess\<rparr> =
           emptyProcess\<lparr>pageCache := ?pc\<rparr>"
    by (simp add: emptyProcess_def)
  show ?thesis
    using fetchRange_page_failure[OF h1 h2 h3 h4 h5 h6]
      fetchRange_page_failure[OF g1 h2 g3 g4 g5 g6] h1 h3 h4 h5 g1 g3 g4 g5 z
    by (simp add: e) (simp add: emptyProcess_def)
qed

text \<open>
  C3. On a refill the first \<open>A = min(batchNum, T)\<close> blocks of the span are claimed to come
  back as one linked list, with \<open>T = (P * 4096) div size\<close>. The released span of 1 MiB at
  \<open>0x10000\<close> still holds its last owner's data in its first word. A refill with
  \<open>batchNum = 2\<close> takes its first pages, for class index 4095 (blocks of 32768 bytes,
  \<open>T = 1\<close>) as for class index 4096 (blocks of 32776 bytes in 9 pages, \<open>T = 1\<close>, while
  \<^verbatim>\<open>totalBlocks\<close> is 0), and returns the one block with that data as its link: the
  closing null is written only \<^verbatim>\<open>if (allocBlocks > 1)\<close>, so the caller does not get the
  list of one block.
\<close>

theorem fetchRange_single_block_unterminated:
  "(spanPagesFor (classSize 4095) * PAGE_SIZE) div classSize 4095 = 1 \<and>
   min 2 ((SPAN_PAGES * PAGE_SIZE) div classSize 4095) = 1 \<and>
   (case fetchRange dirtyProcess None 4095 2 of
      Some (Inr (p, s')) \<Rightarrow>
        p = 0x10000 \<and> memory s' p = 0x4141414141414141 \<and>
        \<not> blockList (memory s') p (blocksFrom p (classSize 4095) 0 1)
    | _ \<Rightarrow> False) \<and>
   (spanPagesFor (classSize 4096) * PAGE_SIZE) div classSize 4096 = 1 \<and>
   (SPAN_PAGES * PAGE_SIZE) div classSize 4096 = 0 \<and>
   (case fetchRange dirtyProcess None 4096 2 of
      Some (Inr (p, s')) \<Rightarrow>
        p = 0x10000 \<and> memory s' p = 0x4141414141414141 \<and>
        \<not> blockList (memory s') p (blocksFrom p (classSize 4096) 0 1)
    | _ \<Rightarrow> False)"
  by (simp add: central_eval page_eval dirtyProcess_def releasedLarge_def zeroMemory_def
      classSize_def spanPagesFor_def blocksFrom_eval)

text \<open>
  Everywhere else the refill does what C3 says. Let \<^verbatim>\<open>fetchRange(index, batchNum)\<close> find the
  lock free and the central list of the class empty. The Page Layer is asked for \<open>P\<close> pages,
  \<open>P = 8\<close> for class sizes up to \<open>8 * 4096\<close> and the class size divided by 4096, rounded up,
  otherwise. When it answers with a span at \<open>start\<close> that does not wrap around the address
  space, then with \<open>T = (P * 4096) div size\<close> and \<open>A = min(batchNum, T)\<close>: \<open>start\<close> is returned;
  for \<open>A \<ge> 2\<close> the first \<open>A\<close> blocks form one null-terminated list; for \<open>A = 1\<close> the first word
  of the block is left as the span held it; and the remaining \<open>T - A\<close> blocks form the
  null-terminated list at the head of the central list of the class.
\<close>

theorem fetchRange_refill:
  fixes s os index batchNum start pc m
  defines "bsize \<equiv> classSize index"
  defines "P \<equiv> spanPagesFor bsize"
  defines "T \<equiv> unat ((P * PAGE_SIZE) div bsize)"
  defines "A \<equiv> min (unat batchNum) T"
  assumes idx: "index < FREE_LIST_SIZE" and bn: "batchNum \<noteq> 0"
    and free: "\<not> locks (centralCache s) index"
    and empty: "centralFreeList (centralCache s) index = nullptr"
    and span: "allocateSpan (pageCache s) (memory s) os P = Inr (start, pc, m)"
    and nn: "start \<noteq> nullptr"
    and nw: "unat start + unat P * unat PAGE_SIZE \<le> 2 ^ 64"
  shows "case fetchRange s os index batchNum of
           Some (Inr (p, s')) \<Rightarrow>
             p = start \<and> pageCache s' = pc \<and>
             locks (centralCache s') = locks (centralCache s) \<and>
             (if A = 1 then memory s' start = m start
              else blockList (memory s') start (blocksFrom start bsize 0 A)) \<and>
             blockList (memory s') (centralFreeList (centralCache s') index)
               (blocksFrom start bsize A T)
         | _ \<Rightarrow> False"
proof -
  let ?Tw = "(SPAN_PAGES * PAGE_SIZE) div bsize"
  let ?Aw = "min batchNum ?Tw"
  let ?m2 = "carve start bsize ?Aw ?Tw m"
  have res: "fetchFromPageCache (pageCache s) (memory s) os (classSize index) = Inr (start, pc, m)"
    using span unfolding P_def bsize_def by (simp add: fetchFromPageCache_pages)
  have P_eq: "P = (if bsize \<le> 8 * 4096 then 8 else (bsize + 4095) div 4096)"
    by (simp add: P_def spanPagesFor_eq)
  note u = fetchRange_refill_unfold[OF idx bn free empty res nn, folded bsize_def]
  from bn have b1: "1 \<le> unat batchNum"
    by (simp add: Suc_le_eq unat_gt_0)
  show ?thesis
  proof (cases "bsize \<le> 8 * 4096")
    case True
    then have P: "P = 8"
      by (simp add: P_eq)
    have T: "T = unat ?Tw"
      by (simp add: T_def P SPAN_PAGES_def PAGE_SIZE_def)
    have A: "A = unat ?Aw"
      by (simp add: A_def T unat_min)
    from nw have nw': "unat start + 32768 \<le> 2 ^ 64"
      by (simp add: P PAGE_SIZE_def)
    note c = small_class_carving[OF idx bn True[unfolded bsize_def] nn nw', folded bsize_def]
    have ret: "if A = 1 then ?m2 start = m start
               else blockList ?m2 start (blocksFrom start bsize 0 A)"
    proof (cases "A = 1")
      case True
      then have "?Aw \<le> 1"
        by (simp add: A word_le_nat_alt)
      from c(3)[OF this] True show ?thesis
        by simp
    next
      case False
      with c(1) have "1 < ?Aw"
        by (simp add: A word_less_nat_alt)
      from c(4)[OF this] False show ?thesis
        by (simp add: A)
    qed
    have "(if ?Aw < ?Tw then (centralFreeList (centralCache s))(index := start + ?Aw * bsize)
           else centralFreeList (centralCache s)) index =
          (if ?Aw < ?Tw then start + ?Aw * bsize else nullptr)"
      using empty by simp
    with c(6) have cen: "blockList ?m2
        ((if ?Aw < ?Tw then (centralFreeList (centralCache s))(index := start + ?Aw * bsize)
          else centralFreeList (centralCache s)) index) (blocksFrom start bsize A T)"
      by (simp only: A T)
    show ?thesis
      unfolding u using ret cen by simp
  next
    case False
    note big = large_class_one_block[OF idx False[unfolded bsize_def], folded bsize_def]
    from False have P: "P = (bsize + 4095) div 4096"
      by (simp add: P_eq)
    have T: "T = 1"
      using big(1) by (simp add: T_def P PAGE_SIZE_def)
    have A: "A = 1"
      using b1 by (simp add: A_def T)
    have "carve start bsize 0 0 m = m"
      by (simp add: carve_def)
    then show ?thesis
      using empty by (simp add: u big(2) A T blocksFrom_def)
  qed
qed

theorem fetchRange_refill_example:
  "(1023 :: size_t) < FREE_LIST_SIZE \<and> (2 :: size_t) \<noteq> 0 \<and>
   \<not> locks (centralCache emptyProcess) 1023 \<and>
   centralFreeList (centralCache emptyProcess) 1023 = nullptr \<and>
   classSize 1023 = 8192 \<and>
   spanPagesFor (classSize 1023) = 8 \<and>
   allocateSpan (pageCache emptyProcess) (memory emptyProcess) (Some 0x100000) 8 =
     Inr (0x100000, refilledPage, zeroMemory) \<and>
   unat (0x100000 :: ptr) + unat (8 :: size_t) * unat PAGE_SIZE \<le> 2 ^ 64 \<and>
   (case fetchRange emptyProcess (Some 0x100000) 1023 2 of
      Some (Inr (p, s')) \<Rightarrow>
        p = 0x100000 \<and> pageCache s' = refilledPage \<and>
        blockList (memory s') p [0x100000, 0x102000] \<and>
        blockList (memory s') (centralFreeList (centralCache s') 1023) [0x104000, 0x106000]
    | _ \<Rightarrow> False)"
proof -
  have h1: "(1023 :: size_t) < FREE_LIST_SIZE"
    by (simp add: FREE_LIST_SIZE_def MAX_BYTES_def ALIGNMENT_def)
  have h2: "(2 :: size_t) \<noteq> 0"
    by simp
  have h3: "\<not> locks (centralCache emptyProcess) 1023"
    by (simp add: emptyProcess_def)
  have h4: "centralFreeList (centralCache emptyProcess) 1023 = nullptr"
    by (simp add: emptyProcess_def)
  have cs: "classSize 1023 = 8192"
    by (simp add: classSize_def ALIGNMENT_def)
  have a: "allocateSpan (pageCache emptyProcess) (memory emptyProcess) (Some 0x100000) 8 =
             Inr (0x100000, refilledPage, zeroMemory)"
    by (simp add: emptyProcess_def refilledPage_def page_eval zeroMemory_def)
  have sp: "spanPagesFor (classSize 1023) = 8"
    by (simp add: spanPagesFor_eq cs)
  have h5: "allocateSpan (pageCache emptyProcess) (memory emptyProcess) (Some 0x100000)
              (spanPagesFor (classSize 1023)) =
            Inr (0x100000, refilledPage, zeroMemory)"
    using a by (simp add: sp)
  have h6: "(0x100000 :: ptr) \<noteq> nullptr"
    by simp
  have h7: "unat (0x100000 :: ptr) + unat (spanPagesFor (classSize 1023)) * unat PAGE_SIZE
            \<le> 2 ^ 64"
    by (simp add: sp PAGE_SIZE_def)
  have r: "case fetchRange emptyProcess (Some 0x100000) 1023 2 of
      Some (Inr (p, s')) \<Rightarrow>
        p = 0x100000 \<and> pageCache s' = refilledPage \<and>
        blockList (memory s') p [0x100000, 0x102000] \<and>
        blockList (memory s') (centralFreeList (centralCache s') 1023) [0x104000, 0x106000]
    | _ \<Rightarrow> False"
  proof (cases "fetchRange emptyProcess (Some 0x100000) 1023 2")
    case None
    with fetchRange_refill[OF h1 h2 h3 h4 h5 h6 h7] show ?thesis
      by simp
  next
    case (Some x)
    show ?thesis
    proof (cases x)
      case (Inl f)
      with Some fetchRange_refill[OF h1 h2 h3 h4 h5 h6 h7] show ?thesis
        by simp
    next
      case (Inr y)
      obtain p s' where y: "y = (p, s')"
        by (cases y)
      with Some Inr fetchRange_refill[OF h1 h2 h3 h4 h5 h6 h7] show ?thesis
        by (simp add: cs spanPagesFor_eq PAGE_SIZE_def blocksFrom_eval)
    qed
  qed
  show ?thesis
    using h1 h3 h4 cs sp a r by (simp add: PAGE_SIZE_def)
qed

text \<open>
  C9. In the refill path with \<^verbatim>\<open>allocBlocks = min(batchNum, totalBlocks)\<close>: when
  \<open>allocBlocks > 1\<close> the last returned block gets a null link; when \<open>allocBlocks\<close> is 1, or 0
  because \<^verbatim>\<open>totalBlocks\<close> is 0 for a large class, the first word of the returned block is
  not written and keeps the value \<open>m start\<close> that the span held, so that the returned block is
  a null-terminated list exactly when that word was null already.
\<close>

theorem fetchRange_refill_terminator:
  fixes s os index batchNum start pc m
  defines "bsize \<equiv> classSize index"
  defines "totalBlocks \<equiv> (SPAN_PAGES * PAGE_SIZE) div bsize"
  defines "allocBlocks \<equiv> min batchNum totalBlocks"
  assumes idx: "index < FREE_LIST_SIZE" and bn: "batchNum \<noteq> 0"
    and free: "\<not> locks (centralCache s) index"
    and empty: "centralFreeList (centralCache s) index = nullptr"
    and span: "fetchFromPageCache (pageCache s) (memory s) os bsize = Inr (start, pc, m)"
    and nn: "start \<noteq> nullptr"
    and nw: "unat start + 8 * 4096 \<le> 2 ^ 64"
  shows "case fetchRange s os index batchNum of
           Some (Inr (p, s')) \<Rightarrow>
             p = start \<and>
             (if 1 < allocBlocks
              then memory s' (start + (allocBlocks - 1) * bsize) = nullptr
              else memory s' start = m start \<and>
                   blockList (memory s') start [start] = (m start = nullptr))
         | _ \<Rightarrow> False"
proof -
  note u = fetchRange_refill_unfold[OF idx bn free empty span[unfolded bsize_def] nn,
      folded bsize_def, folded totalBlocks_def, folded allocBlocks_def]
  let ?m2 = "carve start bsize allocBlocks totalBlocks m"
  have "if 1 < allocBlocks then ?m2 (start + (allocBlocks - 1) * bsize) = nullptr
        else ?m2 start = m start"
  proof (cases "bsize \<le> 8 * 4096")
    case True
    from nw have nw': "unat start + 32768 \<le> 2 ^ 64"
      by simp
    note c = small_class_carving[OF idx bn True[unfolded bsize_def] nn nw',
        folded bsize_def, folded totalBlocks_def, folded allocBlocks_def]
    show ?thesis
    proof (cases "1 < allocBlocks")
      case True
      from c(5)[OF this] True show ?thesis
        by simp
    next
      case False
      then have "allocBlocks \<le> 1"
        by (simp add: not_less)
      from c(3)[OF this] False show ?thesis
        by simp
    qed
  next
    case False
    note big = large_class_one_block[OF idx False[unfolded bsize_def], folded bsize_def]
    have "totalBlocks = 0" "allocBlocks = 0"
      using big(2) by (simp_all add: totalBlocks_def allocBlocks_def)
    then show ?thesis
      by (simp add: carve_def)
  qed
  then show ?thesis
    using nn by (simp add: u)
qed

theorem fetchRange_refill_terminator_witness:
  "(4095 :: size_t) < FREE_LIST_SIZE \<and> (2 :: size_t) \<noteq> 0 \<and>
   \<not> locks (centralCache dirtyProcess) 4095 \<and>
   centralFreeList (centralCache dirtyProcess) 4095 = nullptr \<and>
   fetchFromPageCache (pageCache dirtyProcess) (memory dirtyProcess) None (classSize 4095) =
     Inr (0x10000, splitPage, memory dirtyProcess) \<and>
   unat (0x10000 :: ptr) + 8 * 4096 \<le> 2 ^ 64 \<and>
   min 2 ((SPAN_PAGES * PAGE_SIZE) div classSize 4095) = 1 \<and>
   memory dirtyProcess 0x10000 = 0x4141414141414141 \<and>
   (case fetchRange dirtyProcess None 4095 2 of
      Some (Inr (p, s')) \<Rightarrow>
        p = 0x10000 \<and> memory s' 0x10000 = 0x4141414141414141 \<and>
        \<not> blockList (memory s') 0x10000 [0x10000]
    | _ \<Rightarrow> False)"
proof -
  have h1: "(4095 :: size_t) < FREE_LIST_SIZE"
    by (simp add: FREE_LIST_SIZE_def MAX_BYTES_def ALIGNMENT_def)
  have h2: "(2 :: size_t) \<noteq> 0"
    by simp
  have h3: "\<not> locks (centralCache dirtyProcess) 4095"
    by (simp add: dirtyProcess_def emptyProcess_def)
  have h4: "centralFreeList (centralCache dirtyProcess) 4095 = nullptr"
    by (simp add: dirtyProcess_def emptyProcess_def)
  have h5: "fetchFromPageCache (pageCache dirtyProcess) (memory dirtyProcess) None (classSize 4095) =
              Inr (0x10000, splitPage, memory dirtyProcess)"
    by (simp add: dirtyProcess_def emptyProcess_def releasedLarge_def splitPage_def classSize_def
        fetchFromPageCache_def SPAN_PAGES_def ALIGNMENT_def page_eval fun_eq_iff)
  have h6: "(0x10000 :: ptr) \<noteq> nullptr"
    by simp
  have h7: "unat (0x10000 :: ptr) + 8 * 4096 \<le> 2 ^ 64"
    by simp
  have ab: "min 2 ((SPAN_PAGES * PAGE_SIZE) div classSize 4095) = 1"
    by (simp add: SPAN_PAGES_def PAGE_SIZE_def classSize_def ALIGNMENT_def)
  have d: "memory dirtyProcess 0x10000 = 0x4141414141414141"
    by (simp add: dirtyProcess_def)
  have r: "case fetchRange dirtyProcess None 4095 2 of
      Some (Inr (p, s')) \<Rightarrow>
        p = 0x10000 \<and> memory s' 0x10000 = 0x4141414141414141 \<and>
        \<not> blockList (memory s') 0x10000 [0x10000]
    | _ \<Rightarrow> False"
  proof (cases "fetchRange dirtyProcess None 4095 2")
    case None
    with fetchRange_refill_terminator[OF h1 h2 h3 h4 h5 h6 h7] show ?thesis
      by simp
  next
    case (Some x)
    show ?thesis
    proof (cases x)
      case (Inl f)
      with Some fetchRange_refill_terminator[OF h1 h2 h3 h4 h5 h6 h7] show ?thesis
        by simp
    next
      case (Inr y)
      obtain p s' where y: "y = (p, s')"
        by (cases y)
      with Some Inr fetchRange_refill_terminator[OF h1 h2 h3 h4 h5 h6 h7] show ?thesis
        by (simp add: ab d)
    qed
  qed
  show ?thesis
    using h1 h3 h4 h5 ab d r by simp
qed

end
